theory Spec2Isabelle
  imports Complex_Main "HOL-Library.Word"
begin

chapter \<open>The installer of the MCP server binary: a shallow embedding\<close>

text \<open>
  The plugin installs a server binary next to a note vault and registers it with the
  desktop host. This theory embeds the parts of the installer that its specification
  speaks about: the two normalisers of duplicate path segments, the platform detection,
  the downloader with its redirects and its clean-up, the installation status service,
  and the update of the host's launcher configuration. Each function of the source is a
  function here with the same name and the same case order. What the source asks of
  Node, of the file system, of the network and of the installed binary is an argument of
  the function: a record of outcomes, so that every \<open>throw\<close>, every rejected promise and
  every promise that never settles is a value. Node's \<open>path\<close> module and the \<open>semver\<close>
  package, which are not part of the repository, are written out from their sources.

  The definitions come first; the properties, each after the text that states it,
  follow from \<open>Properties of the duplicate-segment normalisers\<close> on.
\<close>

section \<open>Node's path module\<close>

text \<open>
  The services import Node's \<open>path\<close>, which is \<open>path.posix\<close> on Linux and macOS and
  \<open>path.win32\<close> on Windows; the plugin is built for all three. The functions below take
  the flavour as their first argument. A path is a string of characters; \<open>backslashed\<close>
  writes a Windows path from its spelling with forward slashes.
\<close>

datatype pathModule = Posix | Win32

definition path_sep :: "pathModule \<Rightarrow> char" where
  "path_sep pm = (case pm of Posix \<Rightarrow> CHR ''/'' | Win32 \<Rightarrow> CHR 0x5C)"

definition backslashed :: "string \<Rightarrow> string" where
  "backslashed s = map (\<lambda>c. if c = CHR ''/'' then CHR 0x5C else c) s"

text \<open>
  \<open>split_on sep s\<close> is \<open>s.split(sep)\<close> for a one-character separator: the empty string
  gives one empty part, a leading separator gives a leading empty part. \<open>join_on sep parts\<close>
  is \<open>parts.join(sep)\<close>. \<open>split_where\<close> splits at every character of a class.
\<close>

fun split_where :: "('a \<Rightarrow> bool) \<Rightarrow> 'a list \<Rightarrow> 'a list list" where
  "split_where isSep [] = [[]]"
| "split_where isSep (c # cs) =
     (if isSep c then [] # split_where isSep cs
      else (case split_where isSep cs of [] \<Rightarrow> [[c]] | w # ws \<Rightarrow> (c # w) # ws))"

definition split_on :: "'a \<Rightarrow> 'a list \<Rightarrow> 'a list list" where
  "split_on sep s = split_where (\<lambda>c. c = sep) s"

fun join_on :: "'a \<Rightarrow> 'a list list \<Rightarrow> 'a list" where
  "join_on sep [] = []"
| "join_on sep [w] = w"
| "join_on sep (w # v # ws) = w @ sep # join_on sep (v # ws)"

text \<open>
  \<open>slice xs a b\<close> is \<open>xs.slice(a, b)\<close> for indices \<open>0 \<le> a \<le> b\<close> (an end past the array
  is clamped); \<open>slice_last xs n\<close> is \<open>xs.slice(-n)\<close> for \<open>n > 0\<close>, the whole array when it has
  fewer than \<open>n\<close> elements.
\<close>

definition slice :: "'a list \<Rightarrow> nat \<Rightarrow> nat \<Rightarrow> 'a list" where
  "slice xs a b = take (b - a) (drop a xs)"

definition slice_last :: "'a list \<Rightarrow> nat \<Rightarrow> 'a list" where
  "slice_last xs n = drop (length xs - n) xs"

text \<open>
  The character classes of \<open>lib/path.js\<close>: both slashes separate on Windows, and a drive
  letter is an ASCII letter.
\<close>

definition isPathSeparator :: "char \<Rightarrow> bool" where
  "isPathSeparator c = (c = CHR ''/'' \<or> c = CHR 0x5C)"

definition isWindowsDeviceRoot :: "char \<Rightarrow> bool" where
  "isWindowsDeviceRoot c =
     (let code = (of_char c :: nat)
      in (65 \<le> code \<and> code \<le> 90) \<or> (97 \<le> code \<and> code \<le> 122))"

text \<open>
  \<open>path.isAbsolute\<close>. On POSIX the path starts with a slash. On Windows it starts with
  either slash, or with a drive letter, a colon and a slash.
\<close>

definition isAbsolute :: "pathModule \<Rightarrow> string \<Rightarrow> bool" where
  "isAbsolute pm p =
     (case pm of
        Posix \<Rightarrow> (case p of [] \<Rightarrow> False | c # _ \<Rightarrow> c = CHR ''/'')
      | Win32 \<Rightarrow>
          (case p of
             [] \<Rightarrow> False
           | c # rest \<Rightarrow>
               isPathSeparator c
               \<or> (case rest of
                     c1 # c2 # _ \<Rightarrow> isWindowsDeviceRoot c \<and> c1 = CHR '':'' \<and> isPathSeparator c2
                   | _ \<Rightarrow> False)))"

section \<open>normalizeDuplicateSegments (utils/normalizePath.ts)\<close>

text \<open>
  The inner \<open>while\<close> loop: pattern lengths are tried in increasing order from
  \<open>patternLength\<close> while \<open>patternLength \<le> (parts.length - i) / 2\<close>; the first length whose
  block at \<open>i\<close> is followed by an equal block is returned (\<open>foundPattern\<close>), \<open>None\<close> when the
  loop runs out.
\<close>

function findPattern :: "string list \<Rightarrow> nat \<Rightarrow> nat \<Rightarrow> nat option" where
  "findPattern parts i patternLength =
     (if 2 * patternLength \<le> length parts - i then
        (let pattern = slice parts i (i + patternLength);
             next = slice parts (i + patternLength) (i + patternLength * 2)
         in if length pattern = length next \<and> list_all2 (=) pattern next
            then Some patternLength
            else findPattern parts i (patternLength + 1))
      else None)"
  by pat_completeness auto
termination
  by (relation "measure (\<lambda>(parts, i, patternLength). Suc (length parts) - patternLength)") auto

declare findPattern.simps [simp del]

lemma findPattern_ge: "findPattern parts i l = Some p \<Longrightarrow> l \<le> p"
proof (induction parts i l rule: findPattern.induct)
  case (1 parts i patternLength)
  show ?case
  proof (cases "2 * patternLength \<le> length parts - i")
    case True
    with "1.prems" "1.IH" show ?thesis
      by (subst (asm) findPattern.simps) (fastforce simp: Let_def split: if_splits)
  next
    case False
    with "1.prems" show ?thesis
      by (subst (asm) findPattern.simps) simp
  qed
qed

text \<open>
  The outer \<open>while (i < parts.length)\<close> loop: a found pattern advances \<open>i\<close> by its length
  and pushes nothing; otherwise the current part is pushed and \<open>i\<close> advances by one.
\<close>

function normalizeLoop :: "string list \<Rightarrow> nat \<Rightarrow> string list \<Rightarrow> string list" where
  "normalizeLoop parts i normalized =
     (if i < length parts then
        (case findPattern parts i 1 of
           Some patternLength \<Rightarrow> normalizeLoop parts (i + patternLength) normalized
         | None \<Rightarrow> normalizeLoop parts (i + 1) (normalized @ [parts ! i]))
      else normalized)"
  by pat_completeness auto
termination
proof (relation "measure (\<lambda>(parts, i, normalized). length parts - i)")
  fix parts :: "string list" and i :: nat and normalized :: "string list" and x2 :: nat
  assume lt: "i < length parts" and found: "findPattern parts i 1 = Some x2"
  from findPattern_ge [OF found] have "1 \<le> x2" .
  with lt show "((parts, i + x2, normalized), (parts, i, normalized))
      \<in> measure (\<lambda>(parts, i, normalized). length parts - i)"
    by simp
qed auto

declare normalizeLoop.simps [simp del]

definition normalizeDuplicateSegments :: "pathModule \<Rightarrow> string \<Rightarrow> string" where
  "normalizeDuplicateSegments pm filepath =
     (let isAbs = isAbsolute pm filepath;
          parts = filter (\<lambda>p. p \<noteq> []) (split_on (path_sep pm) filepath);
          normalized = normalizeLoop parts 0 [];
          result = join_on (path_sep pm) normalized
      in if isAbs then path_sep pm # result else result)"

section \<open>removeDuplicatePathSegments (the earlier services/status.ts)\<close>

text \<open>
  The inner \<open>for (len = 1; len <= lookAhead; len++)\<close> loop: the last \<open>len\<close> parts already
  pushed are compared with the next \<open>len\<close> input parts. \<open>JSON.stringify\<close> of two string
  arrays is equal exactly when the arrays are, so the comparison is list equality.
\<close>

function findDuplicate ::
  "string list \<Rightarrow> nat \<Rightarrow> string list \<Rightarrow> nat \<Rightarrow> nat \<Rightarrow> nat option" where
  "findDuplicate parts i normalized lookAhead len =
     (if len \<le> lookAhead then
        (let normalizedSlice = slice_last normalized len;
             partsSlice = slice parts i (i + len)
         in if normalizedSlice = partsSlice then Some len
            else findDuplicate parts i normalized lookAhead (len + 1))
      else None)"
  by pat_completeness auto
termination
  by (relation "measure (\<lambda>(parts, i, normalized, lookAhead, len). Suc lookAhead - len)") auto

declare findDuplicate.simps [simp del]

text \<open>
  The outer \<open>for\<close> loop. \<open>continue\<close> runs the loop's \<open>i++\<close>, so a duplicate of length
  \<open>len\<close> moves \<open>i\<close> to \<open>i + (len - 1) + 1\<close>.
\<close>

function removeLoop :: "string list \<Rightarrow> nat \<Rightarrow> string list \<Rightarrow> string list" where
  "removeLoop parts i normalized =
     (if i < length parts then
        (let part = parts ! i in
         if part = [] \<and> i \<noteq> 0 then removeLoop parts (i + 1) normalized
         else if i > 0 \<and> part \<noteq> [] then
           (let lookAhead = min (length normalized) (length parts - i) in
            case findDuplicate parts i normalized lookAhead 1 of
              Some len \<Rightarrow> removeLoop parts (i + (len - 1) + 1) normalized
            | None \<Rightarrow> removeLoop parts (i + 1) (normalized @ [part]))
         else removeLoop parts (i + 1) (normalized @ [part]))
      else normalized)"
  by pat_completeness auto
termination
  by (relation "measure (\<lambda>(parts, i, normalized). length parts - i)") auto

declare removeLoop.simps [simp del]

text \<open>
  \<open>normalizeString\<close> of \<open>lib/path.js\<close>, on the segments between separators: empty and
  \<open>.\<close> segments are dropped, a \<open>..\<close> segment removes the segment before it, or is kept when
  there is none to remove and the path may rise above its root.
\<close>

fun normalizeString :: "bool \<Rightarrow> string list \<Rightarrow> string list \<Rightarrow> string list" where
  "normalizeString allowAboveRoot res [] = res"
| "normalizeString allowAboveRoot res (seg # segs) =
     (if seg = [] \<or> seg = ''.'' then normalizeString allowAboveRoot res segs
      else if seg = ''..'' then
        (if res \<noteq> [] \<and> last res \<noteq> ''..''
           then normalizeString allowAboveRoot (butlast res) segs
         else if allowAboveRoot
           then normalizeString allowAboveRoot (res @ [''..'']) segs
         else normalizeString allowAboveRoot res segs)
      else normalizeString allowAboveRoot (res @ [seg]) segs)"

text \<open>
  \<open>path.posix.normalize\<close>: a trailing separator is kept, and an empty result is \<open>.\<close>
  (\<open>/\<close> for an absolute path).
\<close>

definition posix_normalize :: "string \<Rightarrow> string" where
  "posix_normalize p =
     (if p = [] then ''.''
      else
        (let isAbs = (hd p = CHR ''/'');
             trailingSeparator = (last p = CHR ''/'');
             res = join_on (CHR ''/'') (normalizeString (\<not> isAbs) [] (split_on (CHR ''/'') p))
         in if res = [] then (if isAbs then ''/'' else if trailingSeparator then ''./'' else ''.'')
            else (let res' = (if trailingSeparator then res @ ''/'' else res)
                  in if isAbs then ''/'' @ res' else res')))"

text \<open>
  The root of a Windows path of at least two characters, as \<open>path.win32.normalize\<close>
  finds it: \<open>Inl\<close> is the result for a path that is a UNC root and nothing more; \<open>Inr\<close> is
  the device (a drive such as \<open>C:\<close>, or a UNC root of server and share), whether the path
  is absolute, and where the root ends.
\<close>

definition win32_root :: "string \<Rightarrow> string + (string option \<times> bool \<times> nat)" where
  "win32_root p =
     (let len = length p in
      if isPathSeparator (p ! 0) then
        (if isPathSeparator (p ! 1) then
           (let j1 = 2 + length (takeWhile (\<lambda>c. \<not> isPathSeparator c) (drop 2 p))
            in if j1 < len \<and> j1 \<noteq> 2 then
                 (let firstPart = slice p 2 j1;
                      j2 = j1 + length (takeWhile isPathSeparator (drop j1 p))
                  in if j2 < len \<and> j2 \<noteq> j1 then
                       (let j3 = j2 + length (takeWhile (\<lambda>c. \<not> isPathSeparator c) (drop j2 p))
                        in if j3 = len then
                             Inl ([CHR 0x5C, CHR 0x5C] @ firstPart @ [CHR 0x5C] @ drop j2 p
                                  @ [CHR 0x5C])
                           else if j3 \<noteq> j2 then
                             Inr (Some ([CHR 0x5C, CHR 0x5C] @ firstPart @ [CHR 0x5C] @ slice p j2 j3),
                                  True, j3)
                           else Inr (None, True, 0))
                     else Inr (None, True, 0))
               else Inr (None, True, 0))
         else Inr (None, True, 1))
      else if isWindowsDeviceRoot (p ! 0) \<and> p ! 1 = CHR '':'' then
        (if len > 2 \<and> isPathSeparator (p ! 2) then Inr (Some (take 2 p), True, 3)
         else Inr (Some (take 2 p), False, 2))
      else Inr (None, False, 0))"

text \<open>
  \<open>path.win32.normalize\<close>: the part after the root is normalised at either slash and
  joined with backslashes.
\<close>

definition win32_normalize :: "string \<Rightarrow> string" where
  "win32_normalize p =
     (if p = [] then ''.''
      else if length p = 1 then (if hd p = CHR ''/'' then [CHR 0x5C] else p)
      else
        (case win32_root p of
           Inl uncRoot \<Rightarrow> uncRoot
         | Inr (device, isAbs, rootEnd) \<Rightarrow>
             (let tail0 = (if rootEnd < length p
                           then join_on (CHR 0x5C)
                                  (normalizeString (\<not> isAbs) []
                                     (split_where isPathSeparator (drop rootEnd p)))
                           else []);
                  tail1 = (if tail0 = [] \<and> \<not> isAbs then ''.'' else tail0);
                  tail = (if tail1 \<noteq> [] \<and> isPathSeparator (last p) then tail1 @ [CHR 0x5C]
                          else tail1)
              in case device of
                   None \<Rightarrow> if isAbs then CHR 0x5C # tail else tail
                 | Some d \<Rightarrow> if isAbs then d @ CHR 0x5C # tail else d @ tail)))"

definition path_normalize :: "pathModule \<Rightarrow> string \<Rightarrow> string" where
  "path_normalize pm p = (case pm of Posix \<Rightarrow> posix_normalize p | Win32 \<Rightarrow> win32_normalize p)"

text \<open>
  \<open>path.join(...args)\<close>: the non-empty arguments are joined with the separator and the
  result is normalised. On Windows, slashes at the start of the joined path are first
  reduced to one, unless the first non-empty argument starts with exactly two slashes and
  another character (a UNC path).
\<close>

definition win32_join :: "string list \<Rightarrow> string" where
  "win32_join args =
     (let parts = filter (\<lambda>arg. arg \<noteq> []) args
      in if parts = [] then ''.''
         else
           (let joined = join_on (CHR 0x5C) parts;
                firstPart = hd parts;
                (needsReplace, slashCount0) =
                  (if isPathSeparator (firstPart ! 0) then
                     (if length firstPart > 1 \<and> isPathSeparator (firstPart ! 1) then
                        (if length firstPart > 2 then
                           (if isPathSeparator (firstPart ! 2) then (True, 3) else (False, 2))
                         else (True, 2))
                      else (True, 1))
                   else (True, 0));
                slashCount = slashCount0
                  + length (takeWhile isPathSeparator (drop slashCount0 joined))
            in win32_normalize
                 (if needsReplace \<and> slashCount \<ge> 2 then CHR 0x5C # drop slashCount joined
                  else joined)))"

definition path_join :: "pathModule \<Rightarrow> string list \<Rightarrow> string" where
  "path_join pm args =
     (case pm of
        Posix \<Rightarrow>
          (let joined = filter (\<lambda>arg. arg \<noteq> []) args
           in if joined = [] then ''.'' else posix_normalize (join_on (CHR ''/'') joined))
      | Win32 \<Rightarrow> win32_join args)"

text \<open>\<open>result.startsWith(path.sep)\<close>.\<close>

definition startsWithSep :: "pathModule \<Rightarrow> string \<Rightarrow> bool" where
  "startsWithSep pm result = (case result of [] \<Rightarrow> False | c # _ \<Rightarrow> c = path_sep pm)"

definition removeDuplicatePathSegments :: "pathModule \<Rightarrow> string \<Rightarrow> string" where
  "removeDuplicatePathSegments pm filepath =
     (let parts = split_on (path_sep pm) filepath;
          normalized = removeLoop parts 0 []
      in if length normalized = 0 then [path_sep pm]
         else if length normalized = 1 \<and> normalized ! 0 = [] then [path_sep pm]
         else
           (let result = path_join pm normalized
            in if normalized ! 0 = [] \<and> \<not> startsWithSep pm result then path_sep pm # result
               else result))"

section \<open>Vocabulary of the path claims\<close>

text \<open>
  A duplicate consecutive segment block of \<open>xs\<close>: a non-empty block of \<open>len\<close> segments at
  \<open>i\<close> that is immediately followed by an equal block.
\<close>

definition duplicateBlockAt :: "'a list \<Rightarrow> nat \<Rightarrow> nat \<Rightarrow> bool" where
  "duplicateBlockAt xs i len =
     (0 < len \<and> i + 2 * len \<le> length xs \<and> slice xs i (i + len) = slice xs (i + len) (i + 2 * len))"

definition hasDuplicateBlock :: "'a list \<Rightarrow> bool" where
  "hasDuplicateBlock xs =
     list_ex (\<lambda>i. list_ex (\<lambda>len. duplicateBlockAt xs i len) [1..<Suc (length xs)]) [0..<length xs]"

text \<open>
  The segments of a path are the non-empty parts between separators. A plain segment is
  what \<open>realpath\<close> and \<open>path.join\<close> leave between separators: not empty, without a
  separator, and neither \<open>.\<close> nor \<open>..\<close>; on Windows also without a forward slash and
  without a colon (the drive is written apart). \<open>path_of pm root segs\<close> is the path with
  these segments: relative, from the root, or from the root of a drive.
\<close>

definition segmentsOf :: "pathModule \<Rightarrow> string \<Rightarrow> string list" where
  "segmentsOf pm filepath = filter (\<lambda>p. p \<noteq> []) (split_on (path_sep pm) filepath)"

definition plainSegment :: "pathModule \<Rightarrow> string \<Rightarrow> bool" where
  "plainSegment pm s =
     (s \<noteq> [] \<and> path_sep pm \<notin> set s \<and> s \<noteq> ''.'' \<and> s \<noteq> ''..''
      \<and> (pm = Posix \<or> (CHR ''/'' \<notin> set s \<and> CHR '':'' \<notin> set s)))"

datatype root = Relative | Rooted | Drive char

definition path_of :: "pathModule \<Rightarrow> root \<Rightarrow> string list \<Rightarrow> string" where
  "path_of pm r segs =
     (case r of
        Relative \<Rightarrow> join_on (path_sep pm) segs
      | Rooted \<Rightarrow> path_sep pm # join_on (path_sep pm) segs
      | Drive d \<Rightarrow> d # CHR '':'' # path_sep pm # join_on (path_sep pm) segs)"

text \<open>The roots a path can have on each platform.\<close>

definition rootOn :: "pathModule \<Rightarrow> root \<Rightarrow> bool" where
  "rootOn pm r = (case r of Drive d \<Rightarrow> pm = Win32 \<and> isWindowsDeviceRoot d | _ \<Rightarrow> True)"

text \<open>What \<open>split(path.sep)\<close> gives in front of the segments of such a path.\<close>

definition rootParts :: "root \<Rightarrow> string list" where
  "rootParts r = (case r of Relative \<Rightarrow> [] | Rooted \<Rightarrow> [[]] | Drive d \<Rightarrow> [[d, CHR '':'']])"

section \<open>JavaScript text and numbers\<close>

text \<open>
  A JavaScript string is a sequence of UTF-16 code units. Paths, names and keys are only
  ever compared and taken apart at ASCII characters, and are kept as lists of characters;
  the text that is trimmed and matched against the version grammar (a version from the
  manifest, the output of the installed binary) is kept as a list of code units, so that
  every white-space character of the language can occur in it. \<open>js\<close> is the string of an
  ASCII literal.
\<close>

type_synonym jsstring = "16 word list"

definition cu :: "char \<Rightarrow> 16 word" where
  "cu c = of_char c"

definition js :: "string \<Rightarrow> jsstring" where
  "js s = map cu s"

text \<open>
  A JavaScript number is a double: a finite value (zero is \<open>Finite 0\<close>), negative zero, an
  infinity, or \<open>NaN\<close>. \<open>strictEquals\<close> is \<open>===\<close> and \<open>numberLess\<close> is \<open><\<close> on numbers.
\<close>

datatype jsnumber = Finite rat | NegativeZero | PositiveInfinity | NegativeInfinity | NaN

fun finiteValue :: "jsnumber \<Rightarrow> rat" where
  "finiteValue (Finite q) = q"
| "finiteValue n = 0"

fun strictEquals :: "jsnumber \<Rightarrow> jsnumber \<Rightarrow> bool" where
  "strictEquals NaN b = False"
| "strictEquals a NaN = False"
| "strictEquals PositiveInfinity b = (b = PositiveInfinity)"
| "strictEquals NegativeInfinity b = (b = NegativeInfinity)"
| "strictEquals a PositiveInfinity = False"
| "strictEquals a NegativeInfinity = False"
| "strictEquals a b = (finiteValue a = finiteValue b)"

fun numberLess :: "jsnumber \<Rightarrow> jsnumber \<Rightarrow> bool" where
  "numberLess NaN b = False"
| "numberLess a NaN = False"
| "numberLess PositiveInfinity b = False"
| "numberLess a NegativeInfinity = False"
| "numberLess NegativeInfinity b = True"
| "numberLess a PositiveInfinity = True"
| "numberLess a b = (finiteValue a < finiteValue b)"

text \<open>
  The double nearest to a natural number, ties to the even significand: below \<open>2^53\<close>
  every integer is a double; above, \<open>exponentOf n\<close> low bits are rounded away. A result of
  \<open>2^1024\<close> or more is \<open>Infinity\<close>.
\<close>

function exponentOf :: "int \<Rightarrow> nat" where
  "exponentOf n = (if n < 9007199254740992 then 0 else Suc (exponentOf (n div 2)))"
  by pat_completeness auto
termination
  by (relation "measure nat") auto

declare exponentOf.simps [simp del]

definition roundToDouble :: "int \<Rightarrow> int" where
  "roundToDouble n =
     (let e = exponentOf n; q = n div 2 ^ e; r = n mod 2 ^ e
      in (if 2 * r > 2 ^ e \<or> (2 * r = 2 ^ e \<and> odd q) then q + 1 else q) * 2 ^ e)"

definition numberOfNat :: "int \<Rightarrow> jsnumber" where
  "numberOfNat n =
     (let d = roundToDouble n
      in if d \<ge> 2 ^ 1024 then PositiveInfinity else Finite (of_int d))"

text \<open>
  White space as \<open>String.prototype.trim\<close> and \<open>parseInt\<close> strip it: the white-space and
  line-terminator code points of the language, all of them single code units.
\<close>

definition isSpace :: "16 word \<Rightarrow> bool" where
  "isSpace c =
     (c \<in> set [0x0009, 0x000A, 0x000B, 0x000C, 0x000D, 0x0020, 0x00A0, 0x1680,
                0x2000, 0x2001, 0x2002, 0x2003, 0x2004, 0x2005, 0x2006, 0x2007,
                0x2008, 0x2009, 0x200A, 0x2028, 0x2029, 0x202F, 0x205F, 0x3000, 0xFEFF])"

definition trim :: "jsstring \<Rightarrow> jsstring" where
  "trim s = rev (dropWhile isSpace (rev (dropWhile isSpace s)))"

text \<open>\<open>[0-9]\<close>, which is also what \<open>\d\<close> matches.\<close>

definition isDigit :: "16 word \<Rightarrow> bool" where
  "isDigit c = (0x30 \<le> c \<and> c \<le> 0x39)"

text \<open>The value of a string of decimal digits, and \<open>+s\<close> for such a string.\<close>

definition digitValue :: "16 word \<Rightarrow> int" where
  "digitValue c = uint c - 48"

definition decimal :: "jsstring \<Rightarrow> int" where
  "decimal s = foldl (\<lambda>n c. 10 * n + digitValue c) 0 s"

definition toNumber :: "jsstring \<Rightarrow> jsnumber" where
  "toNumber s = numberOfNat (decimal s)"

section \<open>The semver package, as the status service uses it\<close>

text \<open>
  \<open>getInstallationStatus\<close> calls \<open>clean\<close>, \<open>valid\<close> and \<open>lt\<close> of the npm package
  \<open>semver\<close> (strict mode). The package is not part of the repository; this section follows
  its sources (\<open>classes/semver.js\<close>, \<open>internal/re.js\<close>, \<open>internal/identifiers.js\<close>,
  \<open>functions/clean.js\<close>): a version is \<open>v?MAJOR.MINOR.PATCH(-PRERELEASE)?(+BUILD)?\<close>, numeric
  identifiers have no leading zero, the three numbers are at most
  \<open>Number.MAX_SAFE_INTEGER\<close>, and the input is at most 256 code units.
\<close>

text \<open>The text before the first \<open>sep\<close>, and the text after it when there is one.\<close>

definition splitFirst :: "'a \<Rightarrow> 'a list \<Rightarrow> 'a list \<times> 'a list option" where
  "splitFirst sep s =
     (takeWhile (\<lambda>c. c \<noteq> sep) s,
      case dropWhile (\<lambda>c. c \<noteq> sep) s of [] \<Rightarrow> None | _ # rest \<Rightarrow> Some rest)"

text \<open>\<open>[a-zA-Z0-9-]\<close>.\<close>

definition isIdChar :: "16 word \<Rightarrow> bool" where
  "isIdChar c =
     ((0x61 \<le> c \<and> c \<le> 0x7A) \<or> (0x41 \<le> c \<and> c \<le> 0x5A) \<or> (0x30 \<le> c \<and> c \<le> 0x39)
      \<or> c = 0x2D)"

text \<open>\<open>0|[1-9]\d*\<close>, \<open>\d*[a-zA-Z-][a-zA-Z0-9-]*\<close> and \<open>[0-9a-zA-Z-]+\<close>.\<close>

definition numericIdentifier :: "jsstring \<Rightarrow> bool" where
  "numericIdentifier s =
     (s \<noteq> [] \<and> list_all isDigit s \<and> (s = js ''0'' \<or> hd s \<noteq> cu (CHR ''0'')))"

definition prereleaseIdentifier :: "jsstring \<Rightarrow> bool" where
  "prereleaseIdentifier s =
     (numericIdentifier s \<or> (s \<noteq> [] \<and> list_all isIdChar s \<and> \<not> list_all isDigit s))"

definition buildIdentifier :: "jsstring \<Rightarrow> bool" where
  "buildIdentifier s = (s \<noteq> [] \<and> list_all isIdChar s)"

definition MAX_SAFE_INTEGER :: int where
  "MAX_SAFE_INTEGER = 9007199254740991"

definition MAX_LENGTH :: nat where
  "MAX_LENGTH = 256"

text \<open>
  A parsed version. The three numbers are JavaScript numbers. A prerelease identifier
  is kept as its text: the class keeps a numeric identifier below
  \<open>Number.MAX_SAFE_INTEGER\<close> as a number and any other as a string, two identifiers are
  \<open>===\<close> exactly when their texts are equal, and \<open>compareIdentifiers\<close> converts either form
  with \<open>+\<close>. \<open>version\<close> is the canonical text \<open>format()\<close> builds, \<open>MAJOR.MINOR.PATCH\<close> and
  \<open>-PRERELEASE\<close> when there is one, without the build metadata; a number that was matched
  without a leading zero and is a safe integer prints as the digits that were matched.
\<close>

record SemVer =
  major :: jsnumber
  minor :: jsnumber
  patch :: jsnumber
  prerelease :: "jsstring list"
  build :: "jsstring list"
  version :: jsstring

text \<open>
  \<open>new SemVer(version)\<close> in strict mode; \<open>None\<close> is the \<open>TypeError\<close> it throws. The length
  is checked before the text is trimmed.
\<close>

definition parseSemVer :: "jsstring \<Rightarrow> SemVer option" where
  "parseSemVer raw =
     (if length raw > MAX_LENGTH then None
      else
        (let t = trim raw;
             t' = (case t of [] \<Rightarrow> t | c # cs \<Rightarrow> if c = cu (CHR ''v'') then cs else t);
             (mp, b) = splitFirst (cu (CHR ''+'')) t';
             (m, p) = splitFirst (cu (CHR ''-'')) mp;
             nums = split_on (cu (CHR ''.'')) m;
             pre = (case p of None \<Rightarrow> [] | Some ps \<Rightarrow> split_on (cu (CHR ''.'')) ps);
             bld = (case b of None \<Rightarrow> [] | Some bs \<Rightarrow> split_on (cu (CHR ''.'')) bs)
         in if length nums = 3 \<and> list_all numericIdentifier nums
               \<and> list_all (\<lambda>n. \<not> numberLess (Finite (of_int MAX_SAFE_INTEGER)) (toNumber n)
                                \<and> \<not> numberLess (toNumber n) (Finite 0)) nums
               \<and> list_all prereleaseIdentifier pre \<and> list_all buildIdentifier bld
            then Some \<lparr> major = toNumber (nums ! 0), minor = toNumber (nums ! 1),
                        patch = toNumber (nums ! 2), prerelease = pre, build = bld,
                        version = join_on (cu (CHR ''.'')) nums
                          @ (if pre = [] then []
                             else cu (CHR ''-'') # join_on (cu (CHR ''.'')) pre) \<rparr>
            else None))"

text \<open>\<open>clean(version)\<close>: trim, drop leading \<open>=\<close> and \<open>v\<close> characters, parse; \<open>null\<close> is \<open>None\<close>.\<close>

definition clean :: "jsstring \<Rightarrow> jsstring option" where
  "clean v =
     map_option version
       (parseSemVer (dropWhile (\<lambda>c. c = cu (CHR ''='') \<or> c = cu (CHR ''v'')) (trim v)))"

text \<open>\<open>valid(version)\<close>; \<open>valid(null)\<close> is \<open>null\<close>.\<close>

definition valid :: "jsstring option \<Rightarrow> jsstring option" where
  "valid v = (case v of None \<Rightarrow> None | Some s \<Rightarrow> map_option version (parseSemVer s))"

text \<open>
  \<open>compareIdentifiers(a, b)\<close>: two identifiers made of digits are converted to numbers
  and compared as numbers; otherwise equal identifiers compare equal, one made of digits is
  below one that is not, and two that are not compare as strings (\<open>str_less\<close>, by code
  unit). Results are \<open>-1\<close>, \<open>0\<close>, \<open>1\<close>. \<open>compareNumbers\<close> is the same function on two numbers.
\<close>

fun str_less :: "jsstring \<Rightarrow> jsstring \<Rightarrow> bool" where
  "str_less [] [] = False"
| "str_less [] (y # ys) = True"
| "str_less (x # xs) [] = False"
| "str_less (x # xs) (y # ys) = (x < y \<or> (x = y \<and> str_less xs ys))"

definition compareNumbers :: "jsnumber \<Rightarrow> jsnumber \<Rightarrow> int" where
  "compareNumbers a b = (if strictEquals a b then 0 else if numberLess a b then - 1 else 1)"

definition compareIdentifiers :: "jsstring \<Rightarrow> jsstring \<Rightarrow> int" where
  "compareIdentifiers a b =
     (let anum = (a \<noteq> [] \<and> list_all isDigit a); bnum = (b \<noteq> [] \<and> list_all isDigit b)
      in if anum \<and> bnum then compareNumbers (toNumber a) (toNumber b)
         else if a = b then 0
         else if anum \<and> \<not> bnum then - 1
         else if bnum \<and> \<not> anum then 1
         else if str_less a b then - 1 else 1)"

text \<open>
  \<open>comparePre\<close>: the loop goes on while the identifiers are \<open>===\<close> and returns what
  \<open>compareIdentifiers\<close> says at the first pair that is not.
\<close>

fun comparePreLoop :: "jsstring list \<Rightarrow> jsstring list \<Rightarrow> int" where
  "comparePreLoop [] [] = 0"
| "comparePreLoop (a # as) [] = 1"
| "comparePreLoop [] (b # bs) = - 1"
| "comparePreLoop (a # as) (b # bs) =
     (if a = b then comparePreLoop as bs else compareIdentifiers a b)"

definition comparePre :: "SemVer \<Rightarrow> SemVer \<Rightarrow> int" where
  "comparePre x y =
     (if prerelease x \<noteq> [] \<and> prerelease y = [] then - 1
      else if prerelease x = [] \<and> prerelease y \<noteq> [] then 1
      else if prerelease x = [] \<and> prerelease y = [] then 0
      else comparePreLoop (prerelease x) (prerelease y))"

definition compareMain :: "SemVer \<Rightarrow> SemVer \<Rightarrow> int" where
  "compareMain x y =
     (if compareNumbers (major x) (major y) \<noteq> 0 then compareNumbers (major x) (major y)
      else if compareNumbers (minor x) (minor y) \<noteq> 0 then compareNumbers (minor x) (minor y)
      else compareNumbers (patch x) (patch y))"

definition compareSemVer :: "SemVer \<Rightarrow> SemVer \<Rightarrow> int" where
  "compareSemVer x y =
     (if version y = version x then 0
      else if compareMain x y \<noteq> 0 then compareMain x y
      else comparePre x y)"

text \<open>
  \<open>lt(a, b)\<close> parses both strings and throws a \<open>TypeError\<close> when one of them is not a
  version: \<open>None\<close> here.
\<close>

definition lt :: "jsstring \<Rightarrow> jsstring \<Rightarrow> bool option" where
  "lt a b =
     (case (parseSemVer a, parseSemVer b) of
        (Some x, Some y) \<Rightarrow> Some (compareSemVer x y < 0)
      | _ \<Rightarrow> None)"

section \<open>Precedence as Semantic Versioning defines it\<close>

text \<open>
  Semantic Versioning 2.0.0, item 11, in its words. Precedence is determined by the
  first difference when comparing major, minor, patch and pre-release, in that order;
  major, minor and patch are compared numerically. When they are equal, a pre-release
  version has lower precedence than a normal version. Two pre-release versions are
  compared identifier by identifier, from left to right, until a difference is found:
  identifiers consisting of only digits are compared numerically, identifiers with letters
  or hyphens are compared in ASCII sort order, a numeric identifier has lower precedence
  than a non-numeric one, and a larger set of fields has higher precedence than a smaller
  one when all the preceding identifiers are equal.
\<close>

definition onlyDigits :: "jsstring \<Rightarrow> bool" where
  "onlyDigits s = (s \<noteq> [] \<and> list_all isDigit s)"

definition identifierPrecedes :: "jsstring \<Rightarrow> jsstring \<Rightarrow> bool" where
  "identifierPrecedes a b =
     (if onlyDigits a \<and> onlyDigits b then decimal a < decimal b
      else if onlyDigits a then True
      else if onlyDigits b then False
      else str_less a b)"

fun fieldsPrecede :: "jsstring list \<Rightarrow> jsstring list \<Rightarrow> bool" where
  "fieldsPrecede [] [] = False"
| "fieldsPrecede [] (b # bs) = True"
| "fieldsPrecede (a # as) [] = False"
| "fieldsPrecede (a # as) (b # bs) =
     (if a = b then fieldsPrecede as bs else identifierPrecedes a b)"

definition semverPrecedes :: "SemVer \<Rightarrow> SemVer \<Rightarrow> bool" where
  "semverPrecedes x y =
     (numberLess (major x) (major y)
      \<or> (major x = major y
         \<and> (numberLess (minor x) (minor y)
            \<or> (minor x = minor y
               \<and> (numberLess (patch x) (patch y)
                  \<or> (patch x = patch y
                     \<and> ((prerelease x \<noteq> [] \<and> prerelease y = [])
                        \<or> (prerelease x \<noteq> [] \<and> prerelease y \<noteq> []
                           \<and> fieldsPrecede (prerelease x) (prerelease y)))))))))"

text \<open>
  The numeric prerelease identifiers that a double holds exactly, whatever their
  neighbours are: those of at most \<open>2^53\<close>.
\<close>

definition exactIdentifiers :: "SemVer \<Rightarrow> bool" where
  "exactIdentifiers v =
     list_all (\<lambda>s. \<not> onlyDigits s \<or> decimal s \<le> 9007199254740992) (prerelease v)"

section \<open>Plugin settings and platform detection (services/install.ts)\<close>

text \<open>
  \<open>McpToolsPluginSettings\<close>: every field is optional (\<open>None\<close> is \<open>undefined\<close>). The
  settings are read through \<open>(plugin as any).settings\<close>, so what the declared types
  \<open>Platform\<close> and \<open>Arch\<close> hold at run time is a string.
\<close>

record McpToolsPluginSettings =
  settingsVersion :: "string option"
  customPlatform :: "string option"
  customArch :: "string option"
  customBinaryPath :: "string option"
  customCommand :: "string option"
  customEnvVars :: "(string \<times> string) list option"
  customHost :: "string option"

text \<open>What the services read of the plugin object.\<close>

datatype adapter = AdapterError string | BasePath string

record Plugin =
  settings :: "McpToolsPluginSettings option"
  manifestId :: string
  manifestVersion :: jsstring
  configDir :: string
  fileSystemAdapter :: adapter
  localRestApiKey :: "string option"

text \<open>JavaScript truthiness of a value of type \<open>string | undefined\<close>.\<close>

definition truthy :: "string option \<Rightarrow> bool" where
  "truthy v = (case v of None \<Rightarrow> False | Some s \<Rightarrow> s \<noteq> [])"

definition PLATFORM_TYPES :: "string list" where
  "PLATFORM_TYPES = [''windows'', ''macos'', ''linux'']"

definition ARCH_TYPES :: "string list" where
  "ARCH_TYPES = [''x64'', ''arm64'']"

text \<open>\<open>settings?.customPlatform\<close> of an optional plugin, and likewise \<open>customArch\<close>.\<close>

definition settingOf ::
  "(McpToolsPluginSettings \<Rightarrow> string option) \<Rightarrow> Plugin option \<Rightarrow> string option" where
  "settingOf field plugin =
     (case plugin of None \<Rightarrow> None
      | Some p \<Rightarrow> (case settings p of None \<Rightarrow> None | Some s \<Rightarrow> field s))"

text \<open>\<open>getPlatform(plugin?)\<close>; the second argument is what \<open>os.platform()\<close> returns.\<close>

definition getPlatform :: "Plugin option \<Rightarrow> string \<Rightarrow> string" where
  "getPlatform plugin os_platform =
     (if truthy (settingOf customPlatform plugin) then the (settingOf customPlatform plugin)
      else if os_platform = ''darwin'' then ''macos''
      else if os_platform = ''win32'' then ''windows''
      else ''linux'')"

text \<open>\<open>getArch(plugin?)\<close>; the second argument is what \<open>os.arch()\<close> returns.\<close>

definition getArch :: "Plugin option \<Rightarrow> string \<Rightarrow> string" where
  "getArch plugin os_arch =
     (if truthy (settingOf customArch plugin) then the (settingOf customArch plugin)
      else os_arch)"

text \<open>\<open>BINARY_NAME[platform]\<close> (constants): \<open>undefined\<close> for any other key.\<close>

definition BINARY_NAME :: "string \<Rightarrow> string option" where
  "BINARY_NAME platform =
     (if platform = ''windows'' then Some ''mcp-server.exe''
      else if platform = ''macos'' then Some ''mcp-server''
      else if platform = ''linux'' then Some ''mcp-server''
      else None)"

section \<open>The installation status service (services/status.ts)\<close>

text \<open>How a promise ends: it resolves, it rejects, or it never settles.\<close>

datatype 'a outcome = Resolved 'a | Rejected string | Pending

text \<open>
  The child process a command line starts, as \<open>exec\<close> sees it end: it exits with a code
  and what it wrote to stdout (decoded as UTF-8), it is terminated by a signal (\<open>exec\<close>
  itself terminates a process that writes more than \<open>maxBuffer\<close>), it cannot be started,
  or it never exits.
  \<open>execAsync\<close> is \<open>promisify(child_process.exec)\<close>: it resolves with stdout on exit code
  0 and rejects otherwise; a process that never exits is killed (and the promise rejected)
  only when a \<open>timeout\<close> option greater than 0 is given. The status service passes no
  options, and Node's default timeout is 0.
\<close>

datatype proc = Exits int jsstring | Killed | SpawnError | Hangs

definition execAsync :: "nat \<Rightarrow> proc \<Rightarrow> jsstring outcome" where
  "execAsync timeout p =
     (case p of
        Exits code stdout \<Rightarrow> if code = 0 then Resolved stdout else Rejected ''Command failed''
      | Killed \<Rightarrow> Rejected ''Command failed''
      | SpawnError \<Rightarrow> Rejected ''spawn error''
      | Hangs \<Rightarrow> if timeout = 0 then Pending else Rejected ''Command failed'')"

definition defaultExecTimeout :: nat where
  "defaultExecTimeout = 0"

text \<open>
  What the service asks of the machine: the OS name, the result of \<open>resolveSymlinks\<close> on
  a path (it walks the file system), whether \<open>fsp.access(path, X_OK)\<close> succeeds, and the
  process a command line starts. The OS name decides which \<open>path\<close> module Node provides.
\<close>

record System =
  osPlatform :: string
  resolveSymlinks :: "string \<Rightarrow> string outcome"
  accessExecutable :: "string \<Rightarrow> bool"
  childProcess :: "string \<Rightarrow> proc"

definition nodePath :: "string \<Rightarrow> pathModule" where
  "nodePath os_platform = (if os_platform = ''win32'' then Win32 else Posix)"

record InstallPathInfo =
  dir :: string
  path :: string
  name :: string
  symlinked :: "string option"

datatype state = NoApiKey | NotInstalled | Installed | Outdated | StateError

record InstallationStatus =
  state :: state
  installPath :: "InstallPathInfo option"
  versionsPlugin :: "jsstring option"
  versionsServer :: "jsstring option"
  error :: "string option"

text \<open>
  \<open>getInstallPath\<close>: \<open>Inl\<close> is the \<open>{ error }\<close> object of a missing file system adapter.
  \<open>path.join\<close> throws a \<open>TypeError\<close> on the \<open>undefined\<close> that \<open>BINARY_NAME\<close> gives for a
  platform outside its keys.
\<close>

definition getInstallPath :: "Plugin \<Rightarrow> System \<Rightarrow> (string + InstallPathInfo) outcome" where
  "getInstallPath plugin sys =
     (case fileSystemAdapter plugin of
        AdapterError e \<Rightarrow> Resolved (Inl e)
      | BasePath basePath \<Rightarrow>
          (let pm = nodePath (osPlatform sys);
               platform = getPlatform (Some plugin) (osPlatform sys);
               originalPath =
                 path_join pm
                   [basePath, configDir plugin, ''plugins'', manifestId plugin, ''bin'']
           in case resolveSymlinks sys originalPath of
                Rejected e \<Rightarrow> Rejected e
              | Pending \<Rightarrow> Pending
              | Resolved realDirPath \<Rightarrow>
                  (let normalizedDirPath = normalizeDuplicateSegments pm realDirPath
                   in case BINARY_NAME platform of
                        None \<Rightarrow> Rejected ''TypeError: The path argument must be of type string''
                      | Some platformSpecificBinary \<Rightarrow>
                          Resolved (Inr \<lparr> dir = normalizedDirPath,
                            path = path_join pm [normalizedDirPath, platformSpecificBinary],
                            name = platformSpecificBinary,
                            symlinked = (if originalPath = normalizedDirPath then None
                                         else Some originalPath) \<rparr>))))"

definition versionCommand :: "InstallPathInfo \<Rightarrow> string" where
  "versionCommand info = [CHR 0x22] @ path info @ [CHR 0x22] @ '' --version''"

definition getInstallationStatus :: "Plugin \<Rightarrow> System \<Rightarrow> InstallationStatus outcome" where
  "getInstallationStatus plugin sys =
     (case valid (clean (manifestVersion plugin)) of
        None \<Rightarrow>
          Resolved \<lparr> state = StateError, installPath = None, versionsPlugin = None,
                     versionsServer = None, error = None \<rparr>
      | Some pluginVersion \<Rightarrow>
          if \<not> truthy (localRestApiKey plugin) then
            Resolved \<lparr> state = NoApiKey, installPath = None, versionsPlugin = Some pluginVersion,
                       versionsServer = None, error = None \<rparr>
          else
            (case getInstallPath plugin sys of
               Rejected e \<Rightarrow> Rejected e
             | Pending \<Rightarrow> Pending
             | Resolved (Inl e) \<Rightarrow>
                 Resolved \<lparr> state = StateError, installPath = None,
                            versionsPlugin = Some pluginVersion, versionsServer = None,
                            error = Some e \<rparr>
             | Resolved (Inr info) \<Rightarrow>
                 if \<not> accessExecutable sys (path info) then
                   Resolved \<lparr> state = NotInstalled, installPath = Some info,
                              versionsPlugin = Some pluginVersion, versionsServer = None,
                              error = None \<rparr>
                 else
                   (let failed = \<lparr> state = StateError, installPath = Some info,
                                    versionsPlugin = Some pluginVersion, versionsServer = None,
                                    error = None \<rparr>
                    in case execAsync defaultExecTimeout (childProcess sys (versionCommand info)) of
                         Pending \<Rightarrow> Pending
                       | Rejected e \<Rightarrow> Resolved failed
                       | Resolved stdout \<Rightarrow>
                           (case clean (trim stdout) of
                              None \<Rightarrow> Resolved failed
                            | Some serverVersion \<Rightarrow>
                                (case lt serverVersion pluginVersion of
                                   None \<Rightarrow> Rejected ''TypeError: Invalid Version''
                                 | Some older \<Rightarrow>
                                     Resolved \<lparr> state = (if older then Outdated else Installed),
                                                installPath = Some info,
                                                versionsPlugin = Some pluginVersion,
                                                versionsServer = Some serverVersion,
                                                error = None \<rparr>)))))"


text \<open>A vault at \<open>/vault\<close> on Linux whose binary answers \<open>--version\<close> as \<open>p\<close> says.\<close>

definition examplePlugin :: "string \<Rightarrow> Plugin" where
  "examplePlugin v =
     \<lparr> settings = None, manifestId = ''mcp-tools'', manifestVersion = js v,
       configDir = ''.obsidian'', fileSystemAdapter = BasePath ''/vault'',
       localRestApiKey = Some ''secret'' \<rparr>"

definition exampleSystem :: "bool \<Rightarrow> proc \<Rightarrow> System" where
  "exampleSystem executable p =
     \<lparr> osPlatform = ''linux'', resolveSymlinks = (\<lambda>p. Resolved p),
       accessExecutable = (\<lambda>p. executable), childProcess = (\<lambda>c. p) \<rparr>"

definition exampleInfo :: InstallPathInfo where
  "exampleInfo =
     \<lparr> dir = ''/vault/.obsidian/plugins/mcp-tools/bin'',
       path = ''/vault/.obsidian/plugins/mcp-tools/bin/mcp-server'',
       name = ''mcp-server'', symlinked = None \<rparr>"

section \<open>The host launcher configuration (services/config.ts)\<close>

text \<open>
  JavaScript values as \<open>JSON.parse\<close> builds them and as the service extends them. An
  object is its list of properties in insertion order; \<open>Undefined\<close> is the value of a
  property such as \<open>OBSIDIAN_API_KEY: apiKey\<close> when no key was passed. A number is a
  double: \<open>JSON.parse\<close> gives an infinity for a literal too large for one and negative
  zero for \<open>-0\<close>.
\<close>

datatype jsval =
    Undefined
  | JNull
  | JBool bool
  | JNumber jsnumber
  | JString string
  | JArray "jsval list"
  | JObject "(string \<times> jsval) list"

text \<open>\<open>obj[k]\<close> and \<open>obj[k] = v\<close> on a property list.\<close>

definition getProp :: "string \<Rightarrow> (string \<times> jsval) list \<Rightarrow> jsval" where
  "getProp k ps = (case map_of ps k of None \<Rightarrow> Undefined | Some v \<Rightarrow> v)"

fun setProp :: "string \<Rightarrow> jsval \<Rightarrow> (string \<times> jsval) list \<Rightarrow> (string \<times> jsval) list" where
  "setProp k v [] = [(k, v)]"
| "setProp k v (p # ps) = (if fst p = k then (k, v) # ps else p # setProp k v ps)"

text \<open>\<open>Object.assign(target, source)\<close> for a source of string properties.\<close>

fun objectAssign :: "(string \<times> jsval) list \<Rightarrow> (string \<times> string) list \<Rightarrow> (string \<times> jsval) list" where
  "objectAssign target [] = target"
| "objectAssign target (p # ps) = objectAssign (setProp (fst p) (JString (snd p)) target) ps"

text \<open>Truthiness of a value, as \<open>config.mcpServers || {}\<close> tests it.\<close>

fun truthyValue :: "jsval \<Rightarrow> bool" where
  "truthyValue Undefined = False"
| "truthyValue JNull = False"
| "truthyValue (JBool b) = b"
| "truthyValue (JNumber n) = (n \<noteq> Finite 0 \<and> n \<noteq> NegativeZero \<and> n \<noteq> NaN)"
| "truthyValue (JString s) = (s \<noteq> [])"
| "truthyValue (JArray xs) = True"
| "truthyValue (JObject ps) = True"

text \<open>
  A file is known to the service by what \<open>fsp.readFile\<close> and \<open>JSON.parse\<close> make of it:
  it does not exist (\<open>ENOENT\<close>), it cannot be read (another error code), its text is not
  JSON, or its text parses to a value. \<open>toJSON v\<close> is the value that the text
  \<open>JSON.stringify(v, null, 2)\<close> parses to: a property whose value is \<open>undefined\<close> is left
  out, an \<open>undefined\<close> array element is written as \<open>null\<close>, a number that is not finite
  is written as \<open>null\<close>, negative zero is written as \<open>0\<close>, and a finite number is written
  with the digits that give the same double back.
\<close>

datatype fileState = Absent | Unreadable string | Malformed | Holds jsval

fun toJSON :: "jsval \<Rightarrow> jsval" where
  "toJSON (JNumber n) =
     (case n of Finite q \<Rightarrow> JNumber n | NegativeZero \<Rightarrow> JNumber (Finite 0) | _ \<Rightarrow> JNull)"
| "toJSON (JArray xs) = JArray (map (\<lambda>x. if x = Undefined then JNull else toJSON x) xs)"
| "toJSON (JObject ps) =
     JObject (map (\<lambda>p. (fst p, toJSON (snd p))) (filter (\<lambda>p. snd p \<noteq> Undefined) ps))"
| "toJSON v = v"

text \<open>
  The values \<open>JSON.parse\<close> returns: no \<open>undefined\<close> and no \<open>NaN\<close> inside, no property name
  twice. Among them, the values that \<open>JSON.stringify\<close> writes so that they parse back as
  they are: those without an infinity and without a negative zero.
\<close>

fun isJson :: "jsval \<Rightarrow> bool" where
  "isJson Undefined = False"
| "isJson (JNumber n) = (n \<noteq> NaN)"
| "isJson (JArray xs) = list_all isJson xs"
| "isJson (JObject ps) = (distinct (map fst ps) \<and> list_all (\<lambda>p. isJson (snd p)) ps)"
| "isJson v = True"

fun roundTrips :: "jsval \<Rightarrow> bool" where
  "roundTrips Undefined = False"
| "roundTrips (JNumber n) = (case n of Finite q \<Rightarrow> True | _ \<Rightarrow> False)"
| "roundTrips (JArray xs) = list_all roundTrips xs"
| "roundTrips (JObject ps) = (distinct (map fst ps) \<and> list_all (\<lambda>p. roundTrips (snd p)) ps)"
| "roundTrips v = True"

definition serverId :: string where
  "serverId = ''obsidian-mcp-tools''"

text \<open>
  Lines 83 to 105 of \<open>updateClaudeConfig\<close>: the command, the environment and the entry
  that is assigned to \<open>config.mcpServers["obsidian-mcp-tools"]\<close>.
\<close>

definition entryCommand :: "McpToolsPluginSettings option \<Rightarrow> string \<Rightarrow> string" where
  "entryCommand st serverPath =
     (case st of
        None \<Rightarrow> serverPath
      | Some s \<Rightarrow> if truthy (customCommand s) then the (customCommand s) else serverPath)"

definition entryEnv :: "McpToolsPluginSettings option \<Rightarrow> string option \<Rightarrow> (string \<times> jsval) list" where
  "entryEnv st apiKey =
     (let env0 = [(''OBSIDIAN_API_KEY'', case apiKey of None \<Rightarrow> Undefined | Some k \<Rightarrow> JString k)];
          env1 = (case st of
                    None \<Rightarrow> env0
                  | Some s \<Rightarrow> if truthy (customHost s)
                             then setProp ''OBSIDIAN_HOST'' (JString (the (customHost s))) env0
                             else env0)
      in case st of
           None \<Rightarrow> env1
         | Some s \<Rightarrow> (case customEnvVars s of None \<Rightarrow> env1 | Some vars \<Rightarrow> objectAssign env1 vars))"

definition serverEntry :: "McpToolsPluginSettings option \<Rightarrow> string \<Rightarrow> string option \<Rightarrow> jsval" where
  "serverEntry st serverPath apiKey =
     JObject [(''command'', JString (entryCommand st serverPath)),
              (''env'', JObject (entryEnv st apiKey))]"

text \<open>
  The configuration in memory after line 102, or the \<open>TypeError\<close> on the way (\<open>None\<close>).
  The module is strict code: reading a property of \<open>null\<close> throws, and so does creating a
  property on a number, a string or a boolean. An array takes a named property, which
  \<open>JSON.stringify\<close> does not write, so an array stays what it was.
\<close>

definition withEntry :: "jsval \<Rightarrow> jsval \<Rightarrow> jsval option" where
  "withEntry config entry =
     (case config of
        JObject ps \<Rightarrow>
          (let mcpServers = (if truthyValue (getProp ''mcpServers'' ps)
                             then getProp ''mcpServers'' ps else JObject [])
           in case mcpServers of
                JObject ms \<Rightarrow>
                  Some (JObject (setProp ''mcpServers'' (JObject (setProp serverId entry ms)) ps))
              | JArray xs \<Rightarrow> Some (JObject (setProp ''mcpServers'' (JArray xs) ps))
              | _ \<Rightarrow> None)
      | JArray xs \<Rightarrow> Some (JArray xs)
      | _ \<Rightarrow> None)"

text \<open>
  The file system as the update sees it: whether \<open>mkdir\<close> of the parent directory and
  \<open>writeFile\<close> succeed, and the configuration file. The result is how the promise
  settles and the file afterwards.
\<close>

record configFs =
  mkdirOk :: bool
  writeOk :: bool
  configFile :: fileState

definition updateClaudeConfig ::
  "McpToolsPluginSettings option \<Rightarrow> string \<Rightarrow> string option \<Rightarrow> configFs \<Rightarrow> unit outcome \<times> fileState" where
  "updateClaudeConfig st serverPath apiKey fs =
     (let failed = (Rejected ''Failed to update Claude config'', configFile fs)
      in if \<not> mkdirOk fs then failed
         else
           (case (case configFile fs of
                    Absent \<Rightarrow> Some (JObject [(''mcpServers'', JObject [])])
                  | Unreadable code \<Rightarrow> None
                  | Malformed \<Rightarrow> None
                  | Holds parsed \<Rightarrow> Some parsed) of
              None \<Rightarrow> failed
            | Some config \<Rightarrow>
                (case withEntry config (serverEntry st serverPath apiKey) of
                   None \<Rightarrow> failed
                 | Some config' \<Rightarrow>
                     if writeOk fs then (Resolved (), Holds (toJSON config')) else failed)))"

text \<open>Reading the file back and parsing it, and \<open>doc.mcpServers[k]\<close> of what was read.\<close>

definition readBack :: "fileState \<Rightarrow> jsval option" where
  "readBack f = (case f of Holds v \<Rightarrow> Some v | _ \<Rightarrow> None)"

definition memberOf :: "string \<Rightarrow> jsval \<Rightarrow> jsval" where
  "memberOf k v = (case v of JObject ps \<Rightarrow> getProp k ps | _ \<Rightarrow> Undefined)"

text \<open>The configuration the update starts from: the parsed file, or the default.\<close>

definition configBefore :: "fileState \<Rightarrow> jsval" where
  "configBefore f =
     (case f of Holds v \<Rightarrow> v | _ \<Rightarrow> JObject [(''mcpServers'', JObject [])])"

text \<open>
  The configurations the \<open>ClaudeConfig\<close> interface describes, a little more widely: the
  file is missing, or it holds a JSON object whose \<open>mcpServers\<close> member is an object or is
  missing or falsy.
\<close>

definition configShape :: "fileState \<Rightarrow> bool" where
  "configShape f =
     (case f of
        Absent \<Rightarrow> True
      | Holds (JObject ps) \<Rightarrow>
          isJson (JObject ps)
          \<and> (case getProp ''mcpServers'' ps of
                JObject ms \<Rightarrow> True
              | v \<Rightarrow> \<not> truthyValue v)
      | _ \<Rightarrow> False)"

text \<open>
  A configuration file with a theme, a number, another server and an old entry of this plugin
  that has an \<open>args\<close> array; settings that override the command, the host and one
  environment variable.
\<close>

definition exampleConfig :: jsval where
  "exampleConfig =
     JObject [(''theme'', JString ''dark''),
              (''zoom'', JNumber (Finite (3 / 2))),
              (''mcpServers'',
               JObject [(''other'', JObject [(''command'', JString ''x'')]),
                        (''obsidian-mcp-tools'',
                         JObject [(''command'', JString ''old''),
                                  (''args'', JArray [JString ''--old''])])])]"

definition exampleSettings :: McpToolsPluginSettings where
  "exampleSettings =
     \<lparr> settingsVersion = None, customPlatform = None, customArch = None,
       customBinaryPath = None, customCommand = Some ''wsl.exe'',
       customEnvVars = Some [(''A'', ''1'')], customHost = Some ''127.0.0.1'' \<rparr>"

definition exampleFs :: "fileState \<Rightarrow> configFs" where
  "exampleFs f = \<lparr> mkdirOk = True, writeOk = True, configFile = f \<rparr>"

section \<open>The downloader (downloadFile in services/install.ts)\<close>

text \<open>
  The errors the observable can end with, in the order of the source:
  \<open>Too many redirects\<close>, \<open>No response received\<close>, \<open>HTTP Error <code>: <message>\<close>,
  \<open>Redirect (<code>) received but no location header found\<close>,
  \<open>Unexpected status code: <code>\<close>, \<open>Invalid content-length header\<close>,
  \<open>Failed to create write stream: ...\<close>, \<open>File stream error: ...\<close>,
  \<open>Received invalid data chunk\<close>, \<open>Response error: ...\<close> and \<open>Network error: ...\<close>;
  and the exception of \<open>https.get\<close> itself, which the observable passes on as it is.
\<close>

datatype dl_error =
    TooManyRedirects
  | NoResponseReceived
  | HttpError nat string
  | RedirectWithoutLocation nat
  | UnexpectedStatus nat
  | InvalidContentLength
  | CreateWriteStreamFailed string
  | FileStreamError string
  | InvalidChunk
  | ResponseFailed string
  | NetworkError string
  | RequestThrew string

text \<open>
  What the subscriber is told. The progress event carries the cumulative byte count and
  the total; its percentage is floating-point arithmetic on the two and is left out.
\<close>

record progress =
  bytesReceived :: nat
  totalBytes :: jsnumber

datatype notification = Next progress | Error dl_error | Complete

text \<open>
  What happens once the response is being piped to the file, in the order in which it
  happens: the file system opens the file of the write stream (flags \<open>w\<close>: the file is
  created, or emptied if it exists); a chunk arrives (a \<open>Buffer\<close> of bytes, or something
  that is not a \<open>Buffer\<close>); the file system completes the write of the next so many bytes
  that the stream holds; the write stream (whose opening or writing has failed), the
  response or the request emits \<open>error\<close>; or the write stream emits \<open>finish\<close>.
\<close>

datatype chunk = Buffer "nat list" | NotBuffer

datatype stream_event =
    Opened
  | Data chunk
  | Written nat
  | FileError string
  | ResponseError string
  | RequestError string
  | Finish

record response =
  statusCode :: "nat option"
  statusMessage :: string
  location :: "string option"
  contentLength :: "string option"
  body :: "stream_event list"

text \<open>
  What \<open>https.get\<close> of a URL does: it throws (the URL is not one it accepts), the request
  emits \<open>error\<close>, the callback is called without a response, or with one.
\<close>

datatype reply = Throws string | RequestFails string | NoResponse | Responds response

text \<open>
  The world of one download: what a GET of a URL brings, whether
  \<open>fs.createWriteStream\<close> throws, and whether \<open>fsp.unlink\<close> and \<open>fsp.chmod\<close> of the
  destination succeed (a failure of either is caught and logged by \<open>cleanup\<close>).
\<close>

record network =
  get :: "string \<Rightarrow> reply"
  createThrows :: "string option"
  unlinkOk :: bool
  chmodOk :: bool

text \<open>
  The state of a download: the bytes at the destination path (\<open>None\<close> when there is no
  file), whether the file has mode \<open>0o755\<close>, whether there is a write stream that has not
  been destroyed or closed, whether its file has been opened, the bytes it holds that are
  not yet in the file, what the subscriber has received and whether it is closed (an RxJS
  subscriber ignores everything after \<open>error\<close> or \<open>complete\<close>), the URLs requested so far,
  and how often \<open>unlink\<close> was called.
\<close>

record download =
  destination :: "nat list option"
  mode755 :: bool
  streamOpen :: bool
  fileOpened :: bool
  buffered :: "nat list"
  notifications :: "notification list"
  closed :: bool
  requests :: "string list"
  unlinkCalls :: nat

definition emit :: "notification \<Rightarrow> download \<Rightarrow> download" where
  "emit n st =
     (if closed st then st
      else st\<lparr> notifications := notifications st @ [n],
               closed := (case n of Next p \<Rightarrow> False | _ \<Rightarrow> True) \<rparr>)"

text \<open>
  \<open>cleanup(err?)\<close>. With an error the write stream, if there is one, is destroyed (what
  it holds is dropped) and the destination is unlinked; a failing \<open>unlink\<close> is caught and
  logged. Without one the stream is closed and the file made executable; a failing
  \<open>chmod\<close> is caught and logged.
\<close>

definition cleanup :: "network \<Rightarrow> dl_error option \<Rightarrow> download \<Rightarrow> download" where
  "cleanup net err st =
     (case err of
        Some e \<Rightarrow>
          st\<lparr> streamOpen := False, buffered := [],
              destination := (if unlinkOk net then None else destination st),
              unlinkCalls := unlinkCalls st + 1 \<rparr>
      | None \<Rightarrow>
          st\<lparr> streamOpen := False,
              mode755 := (if chmodOk net \<and> destination st \<noteq> None then True else mode755 st) \<rparr>)"

text \<open>\<open>cleanup(err); subscriber.error(err)\<close>, as every failing path does.\<close>

definition failWith :: "network \<Rightarrow> dl_error \<Rightarrow> download \<Rightarrow> download" where
  "failWith net e st = emit (Error e) (cleanup net (Some e) st)"

text \<open>
  The write stream puts into its file what it holds: all of it before \<open>finish\<close>, the
  next \<open>n\<close> bytes when the file system completes a write.
\<close>

definition writeOut :: "nat \<Rightarrow> download \<Rightarrow> download" where
  "writeOut n st =
     (if streamOpen st \<and> fileOpened st
      then st\<lparr> destination :=
                 Some ((case destination st of None \<Rightarrow> [] | Some old \<Rightarrow> old) @ take n (buffered st)),
               buffered := drop n (buffered st) \<rparr>
      else st)"

text \<open>
  One event of the piped response. The \<open>data\<close> listener of the service runs before the
  one \<open>pipe\<close> installs, which hands the chunk to the write stream. The file is opened by
  a request to the file system that \<open>createWriteStream\<close> has already made, whether or not
  the stream has been destroyed since. The first component is \<open>downloadedBytes\<close>.
\<close>

definition handleEvent ::
  "network \<Rightarrow> jsnumber \<Rightarrow> stream_event \<Rightarrow> nat \<times> download \<Rightarrow> nat \<times> download" where
  "handleEvent net knownTotal ev s =
     (case s of (downloadedBytes, st) \<Rightarrow>
        (case ev of
           Opened \<Rightarrow>
             (downloadedBytes,
              if \<not> fileOpened st
              then st\<lparr> fileOpened := True, destination := Some [] \<rparr> else st)
         | Data NotBuffer \<Rightarrow> (downloadedBytes, failWith net InvalidChunk st)
         | Data (Buffer bytes) \<Rightarrow>
             (let downloadedBytes' = downloadedBytes + length bytes;
                  st1 = emit (Next \<lparr> bytesReceived = downloadedBytes', totalBytes = knownTotal \<rparr>) st
              in (downloadedBytes',
                  if streamOpen st1 then st1\<lparr> buffered := buffered st1 @ bytes \<rparr> else st1))
         | Written n \<Rightarrow> (downloadedBytes, writeOut n st)
         | FileError m \<Rightarrow> (downloadedBytes, failWith net (FileStreamError m) st)
         | ResponseError m \<Rightarrow> (downloadedBytes, failWith net (ResponseFailed m) st)
         | RequestError m \<Rightarrow> (downloadedBytes, failWith net (NetworkError m) st)
         | Finish \<Rightarrow>
             (downloadedBytes,
              if streamOpen st
              then emit Complete (cleanup net None (writeOut (length (buffered st)) st))
              else st)))"

definition runEvents ::
  "network \<Rightarrow> jsnumber \<Rightarrow> stream_event list \<Rightarrow> nat \<times> download \<Rightarrow> nat \<times> download" where
  "runEvents net knownTotal events s = foldl (\<lambda>s ev. handleEvent net knownTotal ev s) s events"

text \<open>
  \<open>parseInt(s, 10)\<close> of a header value (a string of Latin-1 characters): leading white
  space, an optional sign, then the longest run of digits; the number nearest to their
  value, negated after a minus sign; \<open>NaN\<close> when there is no digit.
\<close>

fun negate :: "jsnumber \<Rightarrow> jsnumber" where
  "negate (Finite q) = (if q = 0 then NegativeZero else Finite (- q))"
| "negate NegativeZero = Finite 0"
| "negate PositiveInfinity = NegativeInfinity"
| "negate NegativeInfinity = PositiveInfinity"
| "negate NaN = NaN"

definition parseInt10 :: "string \<Rightarrow> jsnumber" where
  "parseInt10 s =
     (let t = dropWhile isSpace (js s);
          negative = (t \<noteq> [] \<and> hd t = cu (CHR ''-''));
          t' = (if t \<noteq> [] \<and> (hd t = cu (CHR ''-'') \<or> hd t = cu (CHR ''+'')) then tl t else t);
          digits = takeWhile isDigit t'
      in if digits = [] then NaN
         else if negative then negate (toNumber digits) else toNumber digits)"

text \<open>
  \<open>downloadFile(url, outputPath, redirects)\<close>, subscribed to. A redirect subscribes the
  same subscriber to the download of the new URL with \<open>redirects + 1\<close>.
\<close>

function downloadFile :: "network \<Rightarrow> string \<Rightarrow> nat \<Rightarrow> download \<Rightarrow> download" where
  "downloadFile net url redirects st =
     (if redirects > 5 then emit (Error TooManyRedirects) st
      else
        (let st1 = st\<lparr> requests := requests st @ [url] \<rparr>
         in case get net url of
              Throws m \<Rightarrow> emit (Error (RequestThrew m)) st1
            | RequestFails m \<Rightarrow> failWith net (NetworkError m) st1
            | NoResponse \<Rightarrow> failWith net NoResponseReceived st1
            | Responds r \<Rightarrow>
                (let code = (case statusCode r of None \<Rightarrow> 0 | Some c \<Rightarrow> c)
                 in if code \<ge> 400 then failWith net (HttpError code (statusMessage r)) st1
                    else if code = 302 \<or> code = 301 then
                      (if truthy (location r)
                       then downloadFile net (the (location r)) (redirects + 1) st1
                       else failWith net (RedirectWithoutLocation code) st1)
                    else if code \<noteq> 200 then failWith net (UnexpectedStatus code) st1
                    else if truthy (contentLength r) \<and> parseInt10 (the (contentLength r)) = NaN
                      then failWith net InvalidContentLength st1
                    else
                      (case createThrows net of
                         Some m \<Rightarrow> failWith net (CreateWriteStreamFailed m) st1
                       | None \<Rightarrow>
                           (let knownTotal = (if truthy (contentLength r)
                                         then parseInt10 (the (contentLength r)) else Finite 0);
                                st2 = st1\<lparr> streamOpen := True, fileOpened := False,
                                           buffered := [] \<rparr>
                            in snd (runEvents net knownTotal (body r) (0, st2)))))))"
  by pat_completeness auto
termination
  by (relation "measure (\<lambda>(net, url, redirects, st). 6 - redirects)") auto

declare downloadFile.simps [simp del]

text \<open>A subscriber that has received nothing, at a destination that holds \<open>old\<close>.\<close>

definition subscribed :: "nat list option \<Rightarrow> download" where
  "subscribed old =
     \<lparr> destination = old, mode755 = False, streamOpen = False, fileOpened = False,
       buffered = [], notifications = [], closed = False, requests = [], unlinkCalls = 0 \<rparr>"

text \<open>Vocabulary of the downloader claims.\<close>

definition redirectsTo :: "network \<Rightarrow> string \<Rightarrow> string \<Rightarrow> bool" where
  "redirectsTo net url target =
     (case get net url of
        Responds r \<Rightarrow>
          (statusCode r = Some 301 \<or> statusCode r = Some 302) \<and> location r = Some target
          \<and> target \<noteq> []
      | _ \<Rightarrow> False)"

fun isGoodChunk :: "stream_event \<Rightarrow> bool" where
  "isGoodChunk (Data (Buffer bytes)) = True"
| "isGoodChunk ev = False"

text \<open>The events of a transfer that is going well.\<close>

fun isProgress :: "stream_event \<Rightarrow> bool" where
  "isProgress Opened = True"
| "isProgress (Data (Buffer bytes)) = True"
| "isProgress (Written n) = True"
| "isProgress ev = False"

fun isStreamFailure :: "stream_event \<Rightarrow> bool" where
  "isStreamFailure (Data NotBuffer) = True"
| "isStreamFailure (FileError m) = True"
| "isStreamFailure (ResponseError m) = True"
| "isStreamFailure (RequestError m) = True"
| "isStreamFailure ev = False"

fun bytesOf :: "stream_event list \<Rightarrow> nat list" where
  "bytesOf [] = []"
| "bytesOf (Data (Buffer bytes) # evs) = bytes @ bytesOf evs"
| "bytesOf (ev # evs) = bytesOf evs"

text \<open>
  A server on which every URL redirects to the URL with an \<open>r\<close> appended, and a server
  that sends the given events with status 200.
\<close>

definition loopingNetwork :: network where
  "loopingNetwork =
     \<lparr> get = (\<lambda>url. Responds \<lparr> statusCode = Some 302, statusMessage = ''Found'',
                                  location = Some (url @ ''r''), contentLength = None,
                                  body = [] \<rparr>),
       createThrows = None, unlinkOk = True, chmodOk = True \<rparr>"

definition servingNetwork :: "bool \<Rightarrow> stream_event list \<Rightarrow> network" where
  "servingNetwork unlinkWorks events =
     \<lparr> get = (\<lambda>url. Responds \<lparr> statusCode = Some 200, statusMessage = ''OK'',
                                  location = None, contentLength = Some ''5'',
                                  body = events \<rparr>),
       createThrows = None, unlinkOk = unlinkWorks, chmodOk = True \<rparr>"

section \<open>Properties of the duplicate-segment normalisers\<close>

lemma findPattern_unfold:
  "findPattern parts i l =
     (if 2 * l \<le> length (drop i parts) then
        (if take l (drop i parts) = take l (drop l (drop i parts)) then Some l
         else findPattern parts i (l + 1))
      else None)"
proof -
  have a: "slice parts i (i + l) = take l (drop i parts)"
    by (simp add: slice_def)
  have b: "slice parts (i + l) (i + l * 2) = take l (drop l (drop i parts))"
    by (simp add: slice_def add.commute)
  show ?thesis
    by (subst findPattern.simps) (simp add: Let_def a b list_all2_eq [symmetric])
qed

lemma take_drop_neq_fresh:
  assumes "x \<notin> set rest" and "0 < l" and "2 * l \<le> length (x # rest)"
  shows "take l (x # rest) \<noteq> take l (drop l (x # rest))"
proof
  assume eq: "take l (x # rest) = take l (drop l (x # rest))"
  obtain k where k: "l = Suc k" using assms(2) by (cases l) auto
  have "x \<in> set (take l (x # rest))" by (simp add: k)
  then have "x \<in> set (take l (drop l (x # rest)))" using eq by simp
  then have "x \<in> set (drop l (x # rest))" by (rule in_set_takeD)
  then have "x \<in> set rest" unfolding k by (auto dest: in_set_dropD)
  with assms(1) show False by simp
qed

lemma findPattern_fresh_head:
  assumes "drop i parts = x # rest" and "x \<notin> set rest" and "1 \<le> l"
  shows "findPattern parts i l = None"
  using assms
proof (induction parts i l rule: findPattern.induct)
  case (1 parts i patternLength)
  show ?case
  proof (cases "2 * patternLength \<le> length parts - i")
    case False
    then show ?thesis by (subst findPattern_unfold) simp
  next
    case True
    from "1.prems" have pl: "0 < patternLength" by simp
    have len: "length parts - i = length (x # rest)"
      using "1.prems"(1) by (metis length_drop)
    have ne: "take patternLength (drop i parts) \<noteq> take patternLength (drop patternLength (drop i parts))"
      using take_drop_neq_fresh [OF "1.prems"(2) pl] True "1.prems"(1) len by simp
    have ne': "\<not> (length (slice parts i (i + patternLength)) = length (slice parts (i + patternLength) (i + patternLength * 2))
       \<and> list_all2 (=) (slice parts i (i + patternLength)) (slice parts (i + patternLength) (i + patternLength * 2)))"
      using ne by (simp add: slice_def add.commute list_all2_eq [symmetric])
    have "findPattern parts i (patternLength + 1) = None"
      using "1.IH" [OF True refl refl ne' "1.prems"(1,2)] by simp
    with True ne show ?thesis
      by (subst findPattern_unfold) simp
  qed
qed

lemma normalizeLoop_fresh_run:
  assumes "drop i parts = xs @ rest" and "distinct xs" and "set xs \<inter> set rest = {}"
  shows "normalizeLoop parts i acc = normalizeLoop parts (i + length xs) (acc @ xs)"
  using assms
proof (induction xs arbitrary: i acc)
  case Nil
  then show ?case by simp
next
  case (Cons x xs)
  from Cons.prems(1) have lt: "i < length parts"
    by (metis drop_eq_Nil list.distinct(1) append_Cons linorder_not_less)
  from Cons.prems(1) have nth: "parts ! i = x"
    by (metis append_Cons lt nth_via_drop)
  from Cons.prems have fresh: "x \<notin> set (xs @ rest)" by auto
  have none: "findPattern parts i 1 = None"
    using findPattern_fresh_head [of i parts x "xs @ rest" 1] Cons.prems(1) fresh by simp
  have d: "drop (Suc i) parts = xs @ rest"
    using Cons.prems(1) by (metis append_Cons drop_Suc drop_tl list.sel(3) tl_drop)
  have "normalizeLoop parts i acc = normalizeLoop parts (i + 1) (acc @ [x])"
    using lt none nth by (subst normalizeLoop.simps) simp
  also have "\<dots> = normalizeLoop parts (Suc i + length xs) ((acc @ [x]) @ xs)"
    using Cons.IH [of "Suc i" "acc @ [x]"] d Cons.prems by auto
  finally show ?case by simp
qed

lemma normalizeLoop_end: "length parts \<le> i \<Longrightarrow> normalizeLoop parts i acc = acc"
  by (subst normalizeLoop.simps) simp

lemma findPattern_block:
  assumes "drop i parts = B @ B @ S" and "distinct B" and "1 \<le> l" and "l \<le> length B"
  shows "findPattern parts i l = Some (length B)"
  using assms
proof (induction "length B - l" arbitrary: l)
  case 0
  then have l: "l = length B" by simp
  show ?case using "0.prems"(1) by (subst findPattern_unfold) (simp add: l)
next
  case (Suc d)
  then have lt: "l < length B" by simp
  have len: "2 * l \<le> length (drop i parts)" using lt Suc.prems(1) by simp
  obtain b bs where B: "B = b # bs" using lt by (cases B) auto
  have "take l (drop i parts) \<noteq> take l (drop l (drop i parts))"
  proof
    assume eq: "take l (drop i parts) = take l (drop l (drop i parts))"
    obtain k where k: "l = Suc k" using Suc.prems(3) by (cases l) auto
    have "hd (take l (drop i parts)) = b" using Suc.prems(1) by (simp add: B k)
    moreover have "hd (take l (drop l (drop i parts))) = B ! l"
      using Suc.prems(1) lt by (simp add: k hd_conv_nth nth_append hd_drop_conv_nth)
    ultimately have "B ! l = B ! 0" using eq by (simp add: B)
    moreover have "0 < length B" using lt by (cases B) simp_all
    ultimately show False
      using nth_eq_iff_index_eq [OF Suc.prems(2) lt, of 0] Suc.prems(3) by simp
  qed
  moreover have "findPattern parts i (l + 1) = Some (length B)"
    using Suc.hyps(1) [of "l + 1"] Suc.hyps(2) Suc.prems lt by simp
  ultimately show ?case using len by (subst findPattern_unfold) simp
qed

lemma normalizeLoop_block:
  assumes "distinct (P @ B @ S)" and "B \<noteq> []"
  shows "normalizeLoop (P @ B @ B @ S) 0 [] = P @ B @ S"
proof -
  let ?parts = "P @ B @ B @ S"
  have "normalizeLoop ?parts 0 [] = normalizeLoop ?parts (0 + length P) ([] @ P)"
    using assms by (intro normalizeLoop_fresh_run [where rest = "B @ B @ S"]) auto
  also have "\<dots> = normalizeLoop ?parts (length P + length B) P"
  proof -
    have "findPattern ?parts (length P) 1 = Some (length B)"
      using assms by (intro findPattern_block [where S = S]) (auto simp: Suc_le_eq)
    moreover have "length P < length ?parts" using assms by simp
    ultimately show ?thesis by (subst normalizeLoop.simps) simp
  qed
  also have "\<dots> = normalizeLoop ?parts (length P + length B + length (B @ S)) (P @ (B @ S))"
    using assms by (intro normalizeLoop_fresh_run [where rest = "[]"]) auto
  also have "\<dots> = P @ B @ S" by (simp add: normalizeLoop_end)
  finally show ?thesis .
qed

lemma normalizeLoop_distinct:
  assumes "distinct xs"
  shows "normalizeLoop xs 0 [] = xs"
proof -
  have "normalizeLoop xs 0 [] = normalizeLoop xs (0 + length xs) ([] @ xs)"
    using assms by (intro normalizeLoop_fresh_run [where rest = "[]"]) auto
  then show ?thesis by (simp add: normalizeLoop_end)
qed

lemma findDuplicate_fresh:
  assumes "parts ! i \<notin> set normalized" and "i < length parts" and "1 \<le> l"
  shows "findDuplicate parts i normalized lookAhead l = None"
  using assms
proof (induction parts i normalized lookAhead l rule: findDuplicate.induct)
  case (1 parts i normalized lookAhead len)
  show ?case
  proof (cases "len \<le> lookAhead")
    case False
    then show ?thesis by (subst findDuplicate.simps) simp
  next
    case True
    obtain k where k: "len = Suc k" using "1.prems"(3) by (cases len) auto
    have "parts ! i \<in> set (slice parts i (i + len))"
      using "1.prems"(2) by (simp add: slice_def k take_Suc hd_drop_conv_nth drop_eq_Nil)
    moreover have "set (slice_last normalized len) \<subseteq> set normalized"
      by (simp add: slice_last_def set_drop_subset)
    ultimately have ne: "slice_last normalized len \<noteq> slice parts i (i + len)"
      using "1.prems"(1) by auto
    have "findDuplicate parts i normalized lookAhead (len + 1) = None"
      using "1.IH" [OF True refl refl ne "1.prems"(1,2)] by simp
    with True ne show ?thesis by (subst findDuplicate.simps) (simp add: Let_def)
  qed
qed

lemma removeLoop_fresh_run:
  assumes "drop i parts = xs @ rest" and "distinct xs" and "set xs \<inter> set normalized = {}"
    and "[] \<notin> set xs" and "0 < i"
  shows "removeLoop parts i normalized = removeLoop parts (i + length xs) (normalized @ xs)"
  using assms
proof (induction xs arbitrary: i normalized)
  case Nil
  then show ?case by simp
next
  case (Cons x xs)
  from Cons.prems(1) have lt: "i < length parts"
    by (metis drop_eq_Nil list.distinct(1) append_Cons linorder_not_less)
  from Cons.prems(1) have nth: "parts ! i = x"
    by (metis append_Cons lt nth_via_drop)
  have none: "findDuplicate parts i normalized (min (length normalized) (length parts - i)) 1 = None"
    using Cons.prems(3) lt nth by (intro findDuplicate_fresh) auto
  have d: "drop (Suc i) parts = xs @ rest"
    using Cons.prems(1) by (metis append_Cons drop_Suc drop_tl list.sel(3) tl_drop)
  have xne: "x \<noteq> []" using Cons.prems(4) by auto
  have "removeLoop parts i normalized = removeLoop parts (i + 1) (normalized @ [x])"
    using lt none nth xne Cons.prems(5) by (subst removeLoop.simps) (simp add: Let_def)
  also have "\<dots> = removeLoop parts (Suc i + length xs) ((normalized @ [x]) @ xs)"
    using Cons.IH [of "Suc i" "normalized @ [x]"] d Cons.prems by auto
  finally show ?case by simp
qed

lemma removeLoop_end: "length parts \<le> i \<Longrightarrow> removeLoop parts i normalized = normalized"
  by (subst removeLoop.simps) simp

lemma removeLoop_first:
  "parts \<noteq> [] \<Longrightarrow> removeLoop parts 0 [] = removeLoop parts 1 [parts ! 0]"
  by (subst removeLoop.simps) (simp add: Let_def)

lemma findDuplicate_block:
  assumes "normalized = Q @ B" and "drop i parts = B @ S" and "distinct B"
    and "1 \<le> l" and "l \<le> length B" and "length B \<le> lookAhead"
  shows "findDuplicate parts i normalized lookAhead l = Some (length B)"
  using assms
proof (induction "length B - l" arbitrary: l)
  case 0
  then have l: "l = length B" by simp
  have "slice_last normalized l = B" using "0.prems"(1) by (simp add: slice_last_def l)
  moreover have "slice parts i (i + l) = B" using "0.prems"(2) by (simp add: slice_def l)
  ultimately show ?case using "0.prems"(6) by (subst findDuplicate.simps) (simp add: Let_def l)
next
  case (Suc d)
  then have lt: "l < length B" by simp
  have ne: "slice_last normalized l \<noteq> slice parts i (i + l)"
  proof
    assume eq: "slice_last normalized l = slice parts i (i + l)"
    obtain k where k: "l = Suc k" using Suc.prems(4) by (cases l) auto
    have B0: "0 < length B" using lt by (cases B) simp_all
    have "slice_last normalized l = drop (length B - l) B"
      using Suc.prems(1) lt by (simp add: slice_last_def)
    then have "hd (slice_last normalized l) = B ! (length B - l)"
      using lt Suc.prems(4) by (simp add: hd_drop_conv_nth)
    moreover have "hd (slice parts i (i + l)) = B ! 0"
      using Suc.prems(2) B0 by (simp add: slice_def k hd_conv_nth nth_append)
    ultimately have "B ! (length B - l) = B ! 0" using eq by simp
    moreover have "length B - l < length B" using lt Suc.prems(4) by simp
    ultimately show False
      using nth_eq_iff_index_eq [OF Suc.prems(3) _ B0, of "length B - l"] lt by simp
  qed
  moreover have "findDuplicate parts i normalized lookAhead (l + 1) = Some (length B)"
    using Suc.hyps(1) [of "l + 1"] Suc.hyps(2) Suc.prems lt by simp
  moreover have "l \<le> lookAhead" using lt Suc.prems(6) by simp
  ultimately show ?case by (subst findDuplicate.simps) (simp add: Let_def)
qed

lemma removeLoop_block:
  assumes "distinct (Q @ B @ S)" and "B \<noteq> []" and "[] \<notin> set (tl (Q @ B))" and "[] \<notin> set (B @ S)"
  shows "removeLoop (Q @ B @ B @ S) 0 [] = Q @ B @ S"
proof -
  define parts where "parts = Q @ B @ B @ S"
  obtain h T where hT: "Q @ B = h # T" using assms(2) by (cases "Q @ B") auto
  have parts: "parts = h # T @ B @ S"
    unfolding parts_def using hT by (metis append_Cons append_assoc)
  have dT: "distinct (h # T)" using assms(1) hT by (metis distinct_append append_assoc)
  have lenQB: "length Q + length B = Suc (length T)" using hT by (metis length_append length_Cons)
  have B0: "0 < length B" using assms(2) by simp
  have d1: "drop 1 parts = T @ B @ S" by (simp add: parts)
  have d2: "drop (length Q + length B) parts = B @ S" by (simp add: parts_def)
  have d3: "drop (length Q + length B + length B) parts = S @ []" by (simp add: parts_def)
  have len: "length parts = length Q + length B + length B + length S" by (simp add: parts_def)
  have "removeLoop parts 0 [] = removeLoop parts 1 [h]"
    using removeLoop_first [of parts] parts by simp
  also have "\<dots> = removeLoop parts (1 + length T) ([h] @ T)"
  proof (rule removeLoop_fresh_run [OF d1])
    show "distinct T" using dT by simp
    show "set T \<inter> set [h] = {}" using dT by simp
    show "[] \<notin> set T" using assms(3) hT by simp
  qed simp
  also have "\<dots> = removeLoop parts (length Q + length B) (Q @ B)"
    using hT lenQB by simp
  also have "\<dots> = removeLoop parts (length Q + length B + length B) (Q @ B)"
  proof -
    let ?i = "length Q + length B"
    have nth: "parts ! ?i = hd B" using assms(2) by (simp add: parts_def nth_append hd_conv_nth)
    have ne: "hd B \<noteq> []" using assms(2,4) by (cases B) auto
    have fd: "findDuplicate parts ?i (Q @ B) (min (length (Q @ B)) (length parts - ?i)) 1 = Some (length B)"
    proof (rule findDuplicate_block [OF refl d2])
      show "distinct B" using assms(1) by simp
      show "1 \<le> length B" using assms(2) by (cases B) simp_all
      show "length B \<le> min (length (Q @ B)) (length parts - ?i)" by (simp add: len)
    qed simp
    have lt: "?i < length parts" using assms(2) by (cases B) (simp_all add: len)
    have idx: "?i + (length B - 1) + 1 = ?i + length B"
      using assms(2) by (cases B) simp_all
    have "removeLoop parts ?i (Q @ B) = removeLoop parts (?i + (length B - 1) + 1) (Q @ B)"
      using lt nth ne fd assms(2) by (subst removeLoop.simps) (simp add: Let_def)
    then show ?thesis unfolding idx .
  qed
  also have "\<dots> = removeLoop parts (length Q + length B + length B + length S) ((Q @ B) @ S)"
  proof (rule removeLoop_fresh_run [OF d3])
    show "distinct S" using assms(1) by simp
    show "set S \<inter> set (Q @ B) = {}" using assms(1) by auto
    show "[] \<notin> set S" using assms(4) by simp
    show "0 < length Q + length B + length B" using assms(2) by (cases B) simp_all
  qed
  also have "\<dots> = Q @ B @ S" by (simp add: removeLoop_end len)
  finally show ?thesis by (simp add: parts_def)
qed

lemma removeLoop_distinct:
  assumes "distinct xs" and "[] \<notin> set (tl xs)"
  shows "removeLoop xs 0 [] = xs"
proof (cases xs)
  case Nil
  then show ?thesis by (simp add: removeLoop_end)
next
  case (Cons h T)
  have "removeLoop xs 0 [] = removeLoop xs 1 [h]"
    using removeLoop_first [of xs] Cons by simp
  also have "\<dots> = removeLoop xs (1 + length T) ([h] @ T)"
    using assms Cons by (intro removeLoop_fresh_run [where rest = "[]"]) auto
  also have "\<dots> = xs" using Cons by (simp add: removeLoop_end)
  finally show ?thesis .
qed

lemma hasDuplicateBlockI:
  assumes "duplicateBlockAt xs i len"
  shows "hasDuplicateBlock xs"
proof -
  from assms have "0 < len" and "i + 2 * len \<le> length xs"
    by (simp_all add: duplicateBlockAt_def)
  then have "i \<in> set [0..<length xs]" and "len \<in> set [1..<Suc (length xs)]" by auto
  with assms show ?thesis
    unfolding hasDuplicateBlock_def list_ex_iff by blast
qed

lemma findPattern_no_block:
  assumes "\<not> hasDuplicateBlock parts" and "1 \<le> l"
  shows "findPattern parts i l = None"
  using assms
proof (induction parts i l rule: findPattern.induct)
  case (1 parts i patternLength)
  show ?case
  proof (cases "2 * patternLength \<le> length parts - i")
    case False
    then show ?thesis by (subst findPattern.simps) simp
  next
    case True
    have ne: "slice parts i (i + patternLength) \<noteq> slice parts (i + patternLength) (i + patternLength * 2)"
    proof
      assume "slice parts i (i + patternLength) = slice parts (i + patternLength) (i + patternLength * 2)"
      then have "duplicateBlockAt parts i patternLength"
        using True "1.prems"(2) by (simp add: duplicateBlockAt_def mult.commute)
      with "1.prems"(1) show False by (auto dest: hasDuplicateBlockI)
    qed
    then have ne': "\<not> (length (slice parts i (i + patternLength)) = length (slice parts (i + patternLength) (i + patternLength * 2))
       \<and> list_all2 (=) (slice parts i (i + patternLength)) (slice parts (i + patternLength) (i + patternLength * 2)))"
      by (simp add: list_all2_eq [symmetric])
    have "findPattern parts i (patternLength + 1) = None"
      using "1.IH" [OF True refl refl ne' "1.prems"(1)] by simp
    with True ne' show ?thesis
      by (subst findPattern.simps) (simp add: Let_def)
  qed
qed

lemma normalizeLoop_no_pattern:
  assumes "\<And>j. findPattern parts j 1 = None"
  shows "normalizeLoop parts i acc = acc @ drop i parts"
proof (induction "length parts - i" arbitrary: i acc)
  case 0
  then show ?case by (simp add: normalizeLoop_end)
next
  case (Suc d)
  then have lt: "i < length parts" by simp
  have "normalizeLoop parts i acc = normalizeLoop parts (i + 1) (acc @ [parts ! i])"
    using lt assms by (subst normalizeLoop.simps) simp
  also have "\<dots> = (acc @ [parts ! i]) @ drop (i + 1) parts"
    using Suc.hyps(1) [of "i + 1"] Suc.hyps(2) by simp
  also have "\<dots> = acc @ drop i parts"
    using lt by (simp add: Cons_nth_drop_Suc)
  finally show ?case .
qed

lemma normalizeLoop_no_block:
  "\<not> hasDuplicateBlock parts \<Longrightarrow> normalizeLoop parts 0 [] = parts"
  using normalizeLoop_no_pattern [of parts 0 "[]"] findPattern_no_block [of parts 1] by simp

lemma findDuplicate_no_block:
  assumes "\<not> hasDuplicateBlock parts" and "1 \<le> l" and "lookAhead \<le> min i (length parts - i)"
  shows "findDuplicate parts i (take i parts) lookAhead l = None"
  using assms
proof (induction parts i "take i parts" lookAhead l rule: findDuplicate.induct)
  case (1 parts i lookAhead len)
  show ?case
  proof (cases "len \<le> lookAhead")
    case False
    then show ?thesis by (subst findDuplicate.simps) simp
  next
    case True
    have leni: "len \<le> i" and lenn: "i + len \<le> length parts"
      using True "1.prems"(2,3) by arith+
    have ne: "slice_last (take i parts) len \<noteq> slice parts i (i + len)"
    proof
      assume eq: "slice_last (take i parts) len = slice parts i (i + len)"
      have "slice_last (take i parts) len = slice parts (i - len) (i - len + len)"
        using leni lenn by (simp add: slice_last_def slice_def drop_take min_def)
      moreover have "slice parts i (i + len) = slice parts (i - len + len) (i - len + 2 * len)"
        using leni by (simp add: add.commute)
      ultimately have "duplicateBlockAt parts (i - len) len"
        using eq "1.prems"(2) leni lenn by (simp add: duplicateBlockAt_def)
      with "1.prems"(1) show False by (auto dest: hasDuplicateBlockI)
    qed
    have "findDuplicate parts i (take i parts) lookAhead (len + 1) = None"
      using "1.hyps" [OF True refl refl ne "1.prems"(1)] "1.prems"(3) by simp
    with True ne show ?thesis by (subst findDuplicate.simps) (simp add: Let_def)
  qed
qed

lemma removeLoop_no_block_from:
  assumes "\<not> hasDuplicateBlock parts" and "[] \<notin> set (tl parts)"
  shows "0 < i \<Longrightarrow> i \<le> length parts \<Longrightarrow> removeLoop parts i (take i parts) = parts"
proof (induction "length parts - i" arbitrary: i)
  case 0
  then show ?case by (simp add: removeLoop_end)
next
  case (Suc d)
  then have lt: "i < length parts" by simp
  have "parts ! i \<in> set (tl parts)"
    using lt Suc.prems(1) by (cases parts; cases i) auto
  with assms(2) have ne: "parts ! i \<noteq> []" by auto
  have fd: "findDuplicate parts i (take i parts) (min (length (take i parts)) (length parts - i)) 1 = None"
    using assms(1) lt by (intro findDuplicate_no_block) auto
  have "removeLoop parts i (take i parts) = removeLoop parts (i + 1) (take i parts @ [parts ! i])"
    using lt ne fd Suc.prems(1) by (subst removeLoop.simps) (simp add: Let_def)
  also have "take i parts @ [parts ! i] = take (i + 1) parts"
    using lt by (simp add: take_Suc_conv_app_nth)
  also have "removeLoop parts (i + 1) (take (i + 1) parts) = parts"
    using Suc.hyps(1) [of "i + 1"] Suc.hyps(2) lt by simp
  finally show ?case .
qed

lemma removeLoop_no_block:
  assumes "\<not> hasDuplicateBlock parts" and "[] \<notin> set (tl parts)"
  shows "removeLoop parts 0 [] = parts"
proof (cases parts)
  case Nil
  then show ?thesis by (simp add: removeLoop_end)
next
  case (Cons h T)
  have "removeLoop parts 0 [] = removeLoop parts 1 (take 1 parts)"
    using removeLoop_first [of parts] Cons by simp
  also have "\<dots> = parts"
    using removeLoop_no_block_from [OF assms, of 1] Cons by simp
  finally show ?thesis .
qed

lemma split_where_nonempty: "split_where isSep s \<noteq> []"
  by (induction s) (auto split: list.splits)

lemma split_where_plain: "\<forall>c \<in> set w. \<not> isSep c \<Longrightarrow> split_where isSep w = [w]"
  by (induction w) auto

lemma split_where_seg:
  "\<forall>c \<in> set w. \<not> isSep c \<Longrightarrow> isSep x \<Longrightarrow>
     split_where isSep (w @ x # rest) = w # split_where isSep rest"
  by (induction w) auto

lemma split_where_join:
  "segs \<noteq> [] \<Longrightarrow> \<forall>s \<in> set segs. \<forall>c \<in> set s. \<not> isSep c \<Longrightarrow> isSep x \<Longrightarrow>
     split_where isSep (join_on x segs) = segs"
proof (induction x segs rule: join_on.induct)
  case (1 sep)
  then show ?case by simp
next
  case (2 sep w)
  then show ?case by (simp add: split_where_plain)
next
  case (3 sep w v ws)
  then show ?case by (simp add: split_where_seg)
qed

lemma split_where_parts: "w \<in> set (split_where isSep s) \<Longrightarrow> c \<in> set w \<Longrightarrow> \<not> isSep c"
proof (induction s arbitrary: w)
  case Nil
  then show ?case by simp
next
  case (Cons a s)
  obtain v vs where vs: "split_where isSep s = v # vs"
    using split_where_nonempty [of isSep s] by (cases "split_where isSep s") auto
  show ?case
  proof (cases "isSep a")
    case True
    with Cons.prems have "w = [] \<or> w \<in> set (split_where isSep s)" by auto
    with Cons show ?thesis by auto
  next
    case False
    with Cons.prems vs have "w = a # v \<or> w \<in> set vs" by auto
    then show ?thesis
    proof
      assume "w = a # v"
      with Cons.prems(2) have "c = a \<or> c \<in> set v" by auto
      with False Cons.IH [of v] vs show ?thesis by auto
    next
      assume "w \<in> set vs"
      with Cons.IH [of w] vs Cons.prems(2) show ?thesis by auto
    qed
  qed
qed

lemma split_on_nonempty: "split_on c s \<noteq> []"
  by (simp add: split_on_def split_where_nonempty)

lemma split_on_Nil: "split_on c [] = [[]]"
  by (simp add: split_on_def)

lemma split_on_plain: "c \<notin> set w \<Longrightarrow> split_on c w = [w]"
  by (auto simp: split_on_def intro: split_where_plain)

lemma split_on_sep: "split_on c (c # rest) = [] # split_on c rest"
  by (simp add: split_on_def)

lemma split_on_join:
  "segs \<noteq> [] \<Longrightarrow> \<forall>s \<in> set segs. c \<notin> set s \<Longrightarrow> split_on c (join_on c segs) = segs"
  unfolding split_on_def by (rule split_where_join) auto

lemma split_on_parts: "w \<in> set (split_on c s) \<Longrightarrow> c \<notin> set w"
  unfolding split_on_def using split_where_parts [of w "\<lambda>x. x = c" s c] by blast

lemma join_split_on: "join_on c (split_on c s) = s"
proof (induction s)
  case Nil
  then show ?case by (simp add: split_on_def)
next
  case (Cons a s)
  obtain w ws where ws: "split_on c s = w # ws"
    using split_on_nonempty [of c s] by (cases "split_on c s") auto
  show ?case
  proof (cases "a = c")
    case True
    with Cons ws show ?thesis by (simp add: split_on_def)
  next
    case False
    with Cons ws show ?thesis by (cases ws) (auto simp: split_on_def)
  qed
qed

lemma join_on_hd:
  "ws \<noteq> [] \<Longrightarrow> hd ws \<noteq> [] \<Longrightarrow> join_on c ws \<noteq> [] \<and> hd (join_on c ws) = hd (hd ws)"
  by (induction c ws rule: join_on.induct) auto

lemma join_on_last:
  "ws \<noteq> [] \<Longrightarrow> last ws \<noteq> [] \<Longrightarrow> join_on c ws \<noteq> [] \<and> last (join_on c ws) = last (last ws)"
  by (induction c ws rule: join_on.induct) auto

lemma set_join_on: "set (join_on c ws) \<subseteq> insert c (\<Union> (set ` set ws))"
  by (induction c ws rule: join_on.induct) auto

lemma join_on_Cons: "ws \<noteq> [] \<Longrightarrow> join_on c (w # ws) = w @ c # join_on c ws"
  by (cases ws) auto

text \<open>The segments of a path, and of what the normaliser returns.\<close>

lemma segments_clean:
  "s \<in> set (segmentsOf pm x) \<Longrightarrow> s \<noteq> [] \<and> path_sep pm \<notin> set s"
  by (auto simp: segmentsOf_def dest: split_on_parts)

lemma segmentsOf_join:
  assumes "\<forall>s \<in> set segs. s \<noteq> [] \<and> path_sep pm \<notin> set s"
  shows "segmentsOf pm (join_on (path_sep pm) segs) = segs"
    and "segmentsOf pm (path_sep pm # join_on (path_sep pm) segs) = segs"
proof -
  have f: "filter (\<lambda>p. p \<noteq> []) segs = segs" using assms by (induction segs) auto
  show "segmentsOf pm (join_on (path_sep pm) segs) = segs"
  proof (cases "segs = []")
    case True
    then show ?thesis by (simp add: segmentsOf_def split_on_Nil)
  next
    case False
    then show ?thesis using assms f by (simp add: segmentsOf_def split_on_join)
  qed
  show "segmentsOf pm (path_sep pm # join_on (path_sep pm) segs) = segs"
  proof (cases "segs = []")
    case True
    then show ?thesis by (simp add: segmentsOf_def split_on_sep split_on_Nil)
  next
    case False
    then show ?thesis using assms f by (simp add: segmentsOf_def split_on_sep split_on_join)
  qed
qed

lemma normalizeLoop_subset: "set (normalizeLoop parts i acc) \<subseteq> set acc \<union> set parts"
proof (induction parts i acc rule: normalizeLoop.induct)
  case (1 parts i normalized)
  show ?case
  proof (cases "i < length parts")
    case False
    then show ?thesis by (subst normalizeLoop.simps) simp
  next
    case True
    show ?thesis
    proof (cases "findPattern parts i 1")
      case None
      have "set (normalizeLoop parts (i + 1) (normalized @ [parts ! i]))
              \<subseteq> set (normalized @ [parts ! i]) \<union> set parts"
        using "1.IH"(1) [OF True None] .
      with True None show ?thesis by (subst normalizeLoop.simps) auto
    next
      case (Some l)
      have "set (normalizeLoop parts (i + l) normalized) \<subseteq> set normalized \<union> set parts"
        using "1.IH"(2) [OF True Some] .
      with True Some show ?thesis by (subst normalizeLoop.simps) auto
    qed
  qed
qed

lemma normalizeDuplicateSegments_unfold:
  "normalizeDuplicateSegments pm x =
     (if isAbsolute pm x then [path_sep pm] else [])
       @ join_on (path_sep pm) (normalizeLoop (segmentsOf pm x) 0 [])"
  by (simp add: normalizeDuplicateSegments_def segmentsOf_def Let_def)

lemma segmentsOf_normalized:
  "segmentsOf pm (normalizeDuplicateSegments pm x) = normalizeLoop (segmentsOf pm x) 0 []"
proof -
  have "\<forall>s \<in> set (normalizeLoop (segmentsOf pm x) 0 []). s \<noteq> [] \<and> path_sep pm \<notin> set s"
    using normalizeLoop_subset [of "segmentsOf pm x" 0 "[]"] segments_clean [of _ pm x] by auto
  then show ?thesis
    using segmentsOf_join [of "normalizeLoop (segmentsOf pm x) 0 []" pm]
    by (simp add: normalizeDuplicateSegments_unfold)
qed

text \<open>Paths written from plain segments.\<close>

lemma plain_clean:
  "list_all (plainSegment pm) segs \<Longrightarrow> \<forall>s \<in> set segs. s \<noteq> [] \<and> path_sep pm \<notin> set s"
  by (simp add: list_all_iff plainSegment_def)

lemma plain_filter: "list_all (plainSegment pm) segs \<Longrightarrow> filter (\<lambda>p. p \<noteq> []) segs = segs"
  by (induction segs) (auto simp: plainSegment_def)

lemma plain_no_separator:
  "plainSegment pm s \<Longrightarrow> c \<in> set s \<Longrightarrow> c \<noteq> path_sep pm \<and> (pm = Win32 \<longrightarrow> \<not> isPathSeparator c)"
  by (cases pm) (auto simp: plainSegment_def path_sep_def isPathSeparator_def)

lemma device_root_not_separator: "isWindowsDeviceRoot d \<Longrightarrow> \<not> isPathSeparator d \<and> d \<noteq> CHR '':''"
  by (auto simp: isWindowsDeviceRoot_def isPathSeparator_def Let_def)

lemma split_path_of:
  assumes "list_all (plainSegment pm) segs" and "segs \<noteq> []" and "rootOn pm r"
  shows "split_on (path_sep pm) (path_of pm r segs) = rootParts r @ segs"
proof -
  have sj: "split_on (path_sep pm) (join_on (path_sep pm) segs) = segs"
    using assms(1,2) plain_clean [OF assms(1)] by (simp add: split_on_join)
  show ?thesis
  proof (cases r)
    case Relative
    then show ?thesis by (simp add: path_of_def rootParts_def sj)
  next
    case Rooted
    then show ?thesis by (simp add: path_of_def rootParts_def sj split_on_sep)
  next
    case (Drive d)
    with assms(3) have w: "pm = Win32" and d: "isWindowsDeviceRoot d" by (simp_all add: rootOn_def)
    have nsep: "path_sep pm \<notin> set [d, CHR '':'']"
      using device_root_not_separator [OF d] by (auto simp: w path_sep_def isPathSeparator_def)
    have "split_on (path_sep pm) ([d, CHR '':''] @ path_sep pm # join_on (path_sep pm) segs)
            = [d, CHR '':''] # split_on (path_sep pm) (join_on (path_sep pm) segs)"
      unfolding split_on_def using nsep by (intro split_where_seg) auto
    then show ?thesis by (simp add: Drive path_of_def rootParts_def sj)
  qed
qed

lemma segmentsOf_path_of:
  assumes "list_all (plainSegment pm) segs" and "r = Relative \<or> r = Rooted"
  shows "segmentsOf pm (path_of pm r segs) = segs"
  using assms(2) segmentsOf_join [OF plain_clean [OF assms(1)]] by (auto simp: path_of_def)

lemma isAbsolute_relative:
  assumes "list_all (plainSegment pm) segs"
  shows "\<not> isAbsolute pm (join_on (path_sep pm) segs)"
proof (cases segs)
  case Nil
  then show ?thesis by (cases pm) (simp_all add: isAbsolute_def)
next
  case (Cons s ss)
  with assms have p: "plainSegment pm s" by simp
  then obtain a as where s: "s = a # as" by (cases s) (auto simp: plainSegment_def)
  define rest where "rest = (if ss = [] then as else as @ path_sep pm # join_on (path_sep pm) ss)"
  have j: "join_on (path_sep pm) segs = a # rest"
    unfolding rest_def Cons s by (cases ss) auto
  have a: "a \<noteq> path_sep pm" "pm = Win32 \<longrightarrow> \<not> isPathSeparator a"
    using plain_no_separator [OF p, of a] by (simp_all add: s)
  show ?thesis
  proof (cases pm)
    case Posix
    with a j show ?thesis by (simp add: isAbsolute_def path_sep_def)
  next
    case Win32
    have "c1 \<noteq> CHR '':''" if "rest = c1 # c2 # more" for c1 c2 more
    proof (cases as)
      case Nil
      with that have "c1 = path_sep pm" by (auto simp: rest_def split: if_splits)
      then show ?thesis by (simp add: Win32 path_sep_def)
    next
      case (Cons b bs)
      with that have "c1 = b" by (auto simp: rest_def split: if_splits)
      moreover have "CHR '':'' \<notin> set s" using p Win32 by (simp add: plainSegment_def)
      ultimately show ?thesis by (auto simp: s Cons)
    qed
    then show ?thesis
      using a Win32 j by (auto simp: isAbsolute_def split: list.splits)
  qed
qed

lemma isAbsolute_rooted: "isAbsolute pm (path_sep pm # rest)"
  by (cases pm) (simp_all add: isAbsolute_def path_sep_def isPathSeparator_def)

lemma isAbsolute_drive:
  "isWindowsDeviceRoot d \<Longrightarrow> isAbsolute Win32 (d # CHR '':'' # path_sep Win32 # rest)"
  by (simp add: isAbsolute_def path_sep_def isPathSeparator_def)

lemma normalizeDuplicateSegments_path_of:
  assumes "list_all (plainSegment pm) segs" and "r = Relative \<or> r = Rooted"
  shows "normalizeDuplicateSegments pm (path_of pm r segs) =
           path_of pm r (normalizeLoop segs 0 [])"
  using assms(2) isAbsolute_relative [OF assms(1)] isAbsolute_rooted [of pm]
    segmentsOf_path_of [OF assms]
  by (auto simp: normalizeDuplicateSegments_unfold path_of_def)

text \<open>\<open>path.join\<close> of plain segments writes them with separators and nothing else.\<close>

lemma normalizeString_plain:
  "list_all (plainSegment pm) segs \<Longrightarrow> normalizeString b res segs = res @ segs"
  by (induction segs arbitrary: res) (auto simp: plainSegment_def)

lemma posix_normalize_join:
  assumes "list_all (plainSegment Posix) segs" and "segs \<noteq> []"
  shows "posix_normalize (join_on (CHR ''/'') segs) = join_on (CHR ''/'') segs"
proof -
  have hd: "plainSegment Posix (hd segs)" and last: "plainSegment Posix (last segs)"
    using assms by (auto simp: list_all_iff)
  have ne: "join_on (CHR ''/'') segs \<noteq> []" and h: "hd (join_on (CHR ''/'') segs) = hd (hd segs)"
    using join_on_hd [of segs] assms(2) hd by (simp_all add: plainSegment_def)
  have l: "last (join_on (CHR ''/'') segs) = last (last segs)"
    using join_on_last [of segs] assms(2) last by (simp add: plainSegment_def)
  have "hd (hd segs) \<noteq> CHR ''/''"
    using hd by (cases "hd segs") (auto simp: plainSegment_def path_sep_def)
  moreover have "last (last segs) \<noteq> CHR ''/''"
    using last by (metis last_in_set plainSegment_def path_sep_def pathModule.simps(3))
  moreover have "normalizeString True [] (split_on (CHR ''/'') (join_on (CHR ''/'') segs)) = segs"
    using split_on_join [OF assms(2), of "CHR ''/''"] plain_clean [OF assms(1)]
      normalizeString_plain [OF assms(1)]
    by (simp add: path_sep_def)
  ultimately show ?thesis using ne h l by (simp add: posix_normalize_def Let_def)
qed

lemma win32_split_join:
  assumes "list_all (plainSegment Win32) segs" and "segs \<noteq> []"
  shows "split_where isPathSeparator (join_on (CHR 0x5C) segs) = segs"
proof (rule split_where_join [OF assms(2)])
  show "\<forall>s \<in> set segs. \<forall>c \<in> set s. \<not> isPathSeparator c"
    using assms(1) plain_no_separator [of Win32] by (auto simp: list_all_iff)
  show "isPathSeparator (CHR 0x5C)" by (simp add: isPathSeparator_def)
qed

lemma win32_join_ends:
  assumes "list_all (plainSegment Win32) segs" and "segs \<noteq> []"
  shows "join_on (CHR 0x5C) segs \<noteq> []"
    and "\<not> isPathSeparator (hd (join_on (CHR 0x5C) segs))"
    and "\<not> isPathSeparator (last (join_on (CHR 0x5C) segs))"
proof -
  have hd: "plainSegment Win32 (hd segs)" and last: "plainSegment Win32 (last segs)"
    using assms by (auto simp: list_all_iff)
  then have hne: "hd segs \<noteq> []" and lne: "last segs \<noteq> []" by (simp_all add: plainSegment_def)
  show "join_on (CHR 0x5C) segs \<noteq> []" using join_on_hd [OF assms(2) hne] by simp
  have "hd (hd segs) \<in> set (hd segs)" using hne by simp
  then show "\<not> isPathSeparator (hd (join_on (CHR 0x5C) segs))"
    using join_on_hd [OF assms(2) hne, of "CHR 0x5C"] plain_no_separator [OF hd] by simp
  have "last (last segs) \<in> set (last segs)" using lne by simp
  then show "\<not> isPathSeparator (last (join_on (CHR 0x5C) segs))"
    using join_on_last [OF assms(2) lne, of "CHR 0x5C"] plain_no_separator [OF last] by simp
qed

lemma win32_no_drive:
  assumes "list_all (plainSegment Win32) segs" and "segs \<noteq> []"
    and "length (join_on (CHR 0x5C) segs) \<ge> 2"
  shows "join_on (CHR 0x5C) segs ! 1 \<noteq> CHR '':''"
proof -
  obtain s ss where segs: "segs = s # ss" using assms(2) by (cases segs) auto
  with assms(1) have p: "plainSegment Win32 s" by simp
  then obtain a as where s: "s = a # as" by (cases s) (auto simp: plainSegment_def)
  have colon: "CHR '':'' \<notin> set s" using p by (simp add: plainSegment_def)
  show ?thesis
  proof (cases as)
    case Nil
    with assms(3) segs s obtain v vs where "ss = v # vs" by (cases ss) auto
    with Nil segs s show ?thesis by simp
  next
    case (Cons b bs)
    with colon s have "b \<noteq> CHR '':''" by auto
    with Cons segs s show ?thesis by (cases ss) auto
  qed
qed

lemma win32_normalize_join:
  assumes "list_all (plainSegment Win32) segs" and "segs \<noteq> []"
  shows "win32_normalize (join_on (CHR 0x5C) segs) = join_on (CHR 0x5C) segs"
proof -
  let ?p = "join_on (CHR 0x5C) segs"
  note ends = win32_join_ends [OF assms]
  show ?thesis
  proof (cases "length ?p = 1")
    case True
    have "hd ?p \<noteq> CHR ''/''" using ends(2) by (auto simp: isPathSeparator_def)
    with True ends(1) show ?thesis by (simp add: win32_normalize_def)
  next
    case False
    with ends(1) have len: "length ?p \<ge> 2" by (cases ?p) (auto simp: Suc_le_eq)
    have p0: "\<not> isPathSeparator (?p ! 0)" using ends(1,2) by (simp add: hd_conv_nth)
    have root: "win32_root ?p = Inr (None, False, 0)"
      using p0 win32_no_drive [OF assms len] by (simp add: win32_root_def Let_def)
    have tail: "join_on (CHR 0x5C) (normalizeString True [] (split_where isPathSeparator ?p)) = ?p"
      using win32_split_join [OF assms] normalizeString_plain [OF assms(1)] by simp
    show ?thesis
      using False ends root tail by (simp add: win32_normalize_def Let_def)
  qed
qed

lemma win32_normalize_drive:
  assumes "list_all (plainSegment Win32) segs" and "segs \<noteq> []" and "isWindowsDeviceRoot d"
  shows "win32_normalize (d # CHR '':'' # CHR 0x5C # join_on (CHR 0x5C) segs)
           = d # CHR '':'' # CHR 0x5C # join_on (CHR 0x5C) segs"
proof -
  let ?j = "join_on (CHR 0x5C) segs"
  let ?p = "d # CHR '':'' # CHR 0x5C # ?j"
  note ends = win32_join_ends [OF assms(1,2)]
  have root: "win32_root ?p = Inr (Some [d, CHR '':''], True, 3)"
    using device_root_not_separator [OF assms(3)] assms(3)
    by (simp add: win32_root_def Let_def isPathSeparator_def)
  have tail: "join_on (CHR 0x5C) (normalizeString False [] (split_where isPathSeparator ?j)) = ?j"
    using win32_split_join [OF assms(1,2)] normalizeString_plain [OF assms(1)] by simp
  have l: "last ?p = last ?j" using ends(1) by simp
  have d3: "drop 3 ?p = ?j" by (simp add: numeral_3_eq_3)
  have "win32_normalize ?p = [d, CHR '':''] @ CHR 0x5C # ?j"
    unfolding win32_normalize_def root
    using ends(1,3) tail by (simp add: Let_def l d3)
  then show ?thesis by simp
qed

lemma win32_join_unreplaced:
  assumes "parts \<noteq> []" and "[] \<notin> set parts" and "\<not> isPathSeparator (hd (hd parts))"
  shows "win32_join parts = win32_normalize (join_on (CHR 0x5C) parts)"
proof -
  have f: "filter (\<lambda>arg. arg \<noteq> []) parts = parts" using assms(2) by (induction parts) auto
  have hne: "hd parts \<noteq> []" using assms(1,2) by (cases parts) auto
  have p0: "\<not> isPathSeparator (hd parts ! 0)" using assms(3) hne by (simp add: hd_conv_nth)
  have j: "join_on (CHR 0x5C) parts \<noteq> []" "hd (join_on (CHR 0x5C) parts) = hd (hd parts)"
    using join_on_hd [OF assms(1) hne] by simp_all
  have "takeWhile isPathSeparator (join_on (CHR 0x5C) parts) = []"
    using j assms(3) by (cases "join_on (CHR 0x5C) parts") auto
  then show ?thesis
    using assms(1) p0 by (simp add: win32_join_def f Let_def)
qed

lemma path_join_plain:
  assumes "list_all (plainSegment pm) segs" and "segs \<noteq> []" and "rootOn pm r"
  shows "path_join pm (rootParts r @ segs) =
           (case r of Drive d \<Rightarrow> path_of pm r segs | _ \<Rightarrow> join_on (path_sep pm) segs)"
proof (cases pm)
  case Posix
  have plain: "list_all (plainSegment Posix) segs" using assms(1) Posix by simp
  have r: "r = Relative \<or> r = Rooted" using assms(3) Posix by (cases r) (simp_all add: rootOn_def)
  have f: "filter (\<lambda>arg. arg \<noteq> []) (rootParts r @ segs) = segs"
    using r plain_filter [OF plain] by (auto simp: rootParts_def)
  show ?thesis
    using r f assms(2) posix_normalize_join [OF plain assms(2)]
    by (auto simp: Posix path_join_def path_sep_def Let_def)
next
  case Win32
  have plain: "list_all (plainSegment Win32) segs" using assms(1) Win32 by simp
  note ends = win32_join_ends [OF plain assms(2)]
  have noempty: "[] \<notin> set segs" using plain by (auto simp: list_all_iff plainSegment_def)
  have hne: "hd segs \<noteq> []" using noempty assms(2) by (cases segs) auto
  have hd_ok: "\<not> isPathSeparator (hd (hd segs))"
    using ends(2) join_on_hd [OF assms(2) hne, of "CHR 0x5C"] by simp
  have plainjoin: "win32_join segs = join_on (CHR 0x5C) segs"
    using win32_join_unreplaced [OF assms(2) noempty hd_ok] win32_normalize_join [OF plain assms(2)]
    by simp
  have rooted: "win32_join ([] # segs) = win32_join segs" by (simp add: win32_join_def)
  show ?thesis
  proof (cases r)
    case Relative
    then show ?thesis by (simp add: Win32 path_join_def rootParts_def plainjoin path_sep_def)
  next
    case Rooted
    then show ?thesis
      by (simp add: Win32 path_join_def rootParts_def rooted plainjoin path_sep_def)
  next
    case (Drive d)
    with assms(3) have d: "isWindowsDeviceRoot d" by (simp add: rootOn_def)
    have "win32_join ([d, CHR '':''] # segs)
            = win32_normalize (join_on (CHR 0x5C) ([d, CHR '':''] # segs))"
    proof (rule win32_join_unreplaced)
      show "[] \<notin> set ([d, CHR '':''] # segs)" using noempty by simp
      show "\<not> isPathSeparator (hd (hd ([d, CHR '':''] # segs)))"
        using device_root_not_separator [OF d] by simp
    qed simp
    also have "join_on (CHR 0x5C) ([d, CHR '':''] # segs)
            = d # CHR '':'' # CHR 0x5C # join_on (CHR 0x5C) segs"
      using assms(2) by (simp add: join_on_Cons)
    also have "win32_normalize \<dots> = d # CHR '':'' # CHR 0x5C # join_on (CHR 0x5C) segs"
      by (rule win32_normalize_drive [OF plain assms(2) d])
    finally show ?thesis
      by (simp add: Drive Win32 path_join_def rootParts_def path_of_def path_sep_def)
  qed
qed

lemma removeDuplicatePathSegments_path_of:
  assumes "list_all (plainSegment pm) segs" and "segs \<noteq> []"
    and "list_all (plainSegment pm) segs'" and "segs' \<noteq> []" and "rootOn pm r"
    and "removeLoop (rootParts r @ segs) 0 [] = rootParts r @ segs'"
  shows "removeDuplicatePathSegments pm (path_of pm r segs) = path_of pm r segs'"
proof -
  have loop: "removeLoop (split_on (path_sep pm) (path_of pm r segs)) 0 [] = rootParts r @ segs'"
    using assms(6) by (simp add: split_path_of [OF assms(1,2,5)])
  have join: "path_join pm (rootParts r @ segs') =
           (case r of Drive d \<Rightarrow> path_of pm r segs' | _ \<Rightarrow> join_on (path_sep pm) segs')"
    by (rule path_join_plain [OF assms(3,4,5)])
  have s0: "segs' ! 0 \<noteq> []"
    using assms(3,4) by (cases segs') (auto simp: plainSegment_def)
  have nostart: "\<not> startsWithSep pm (join_on (path_sep pm) segs')"
  proof -
    have p: "plainSegment pm (hd segs')" using assms(3,4) by (cases segs') auto
    then have hne: "hd segs' \<noteq> []" by (simp add: plainSegment_def)
    have "hd (hd segs') \<in> set (hd segs')" using hne by simp
    then have "hd (hd segs') \<noteq> path_sep pm" using plain_no_separator [OF p] by blast
    then show ?thesis
      using join_on_hd [OF assms(4) hne, of "path_sep pm"]
      by (cases "join_on (path_sep pm) segs'") (auto simp: startsWithSep_def)
  qed
  show ?thesis
  proof (cases r)
    case Relative
    with loop join s0 assms(4) show ?thesis
      by (simp add: removeDuplicatePathSegments_def Let_def rootParts_def path_of_def)
  next
    case Rooted
    have "length ([] # segs') \<noteq> 1" using assms(4) by (cases segs') auto
    with Rooted loop join nostart show ?thesis
      by (simp add: removeDuplicatePathSegments_def Let_def rootParts_def path_of_def)
  next
    case (Drive d)
    with loop join show ?thesis
      by (simp add: removeDuplicatePathSegments_def Let_def rootParts_def)
  qed
qed

lemma rootParts_fresh:
  assumes "list_all (plainSegment pm) segs" and "rootOn pm r"
  shows "set (rootParts r) \<inter> set segs = {}" and "distinct (rootParts r)"
    and "[] \<notin> set (tl (rootParts r @ segs))"
proof -
  have noempty: "[] \<notin> set segs" using assms(1) by (auto simp: list_all_iff plainSegment_def)
  show "distinct (rootParts r)" by (cases r) (simp_all add: rootParts_def)
  show "[] \<notin> set (tl (rootParts r @ segs))"
    using noempty by (cases r; cases segs) (auto simp: rootParts_def)
  show "set (rootParts r) \<inter> set segs = {}"
  proof (cases r)
    case (Drive d)
    with assms(2) have w: "pm = Win32" by (simp add: rootOn_def)
    have "[d, CHR '':''] \<notin> set segs"
    proof
      assume "[d, CHR '':''] \<in> set segs"
      with assms(1) have "plainSegment pm [d, CHR '':'']" by (simp add: list_all_iff)
      then have "CHR '':'' \<notin> set [d, CHR '':'']" unfolding plainSegment_def w by blast
      then show False by simp
    qed
    with Drive show ?thesis by (simp add: rootParts_def)
  qed (use noempty in \<open>simp_all add: rootParts_def\<close>)
qed

section \<open>Properties of the semver model\<close>

lemma takeWhile_neq_absent: "c \<notin> set s \<Longrightarrow> takeWhile (\<lambda>x. x \<noteq> c) s = s"
  by (induction s) auto

lemma dropWhile_neq_absent: "c \<notin> set s \<Longrightarrow> dropWhile (\<lambda>x. x \<noteq> c) s = []"
  by (induction s) auto

lemma splitFirst_absent: "c \<notin> set s \<Longrightarrow> splitFirst c s = (s, None)"
  by (simp add: splitFirst_def takeWhile_neq_absent dropWhile_neq_absent)

lemma splitFirst_rejoin:
  "splitFirst c s = (m, p) \<Longrightarrow> s = m @ (case p of None \<Rightarrow> [] | Some rest \<Rightarrow> c # rest) \<and> c \<notin> set m"
proof -
  assume a: "splitFirst c s = (m, p)"
  have s: "s = takeWhile (\<lambda>x. x \<noteq> c) s @ dropWhile (\<lambda>x. x \<noteq> c) s" by simp
  have m: "m = takeWhile (\<lambda>x. x \<noteq> c) s" using a by (simp add: splitFirst_def)
  have nin: "c \<notin> set m" unfolding m by (auto dest: set_takeWhileD)
  show ?thesis
  proof (cases "dropWhile (\<lambda>x. x \<noteq> c) s")
    case Nil
    with a s m nin show ?thesis by (auto simp: splitFirst_def)
  next
    case (Cons x rest)
    then have "x = c" using hd_dropWhile [of "\<lambda>x. x \<noteq> c" s] by (metis list.distinct(1) list.sel(1))
    with a s m nin Cons show ?thesis by (auto simp: splitFirst_def)
  qed
qed

lemma trim_id:
  assumes "s \<noteq> []" and "\<not> isSpace (hd s)" and "\<not> isSpace (last s)"
  shows "trim s = s"
proof -
  have "dropWhile isSpace s = s" using assms(1,2) by (cases s) auto
  moreover have "dropWhile isSpace (rev s) = rev s"
    using assms(1,3) by (cases "rev s") (auto simp: hd_rev [symmetric])
  ultimately show ?thesis by (simp add: trim_def)
qed

lemma digit_facts:
  "isDigit c \<Longrightarrow> isIdChar c"
  "isIdChar c \<Longrightarrow> \<not> isSpace c \<and> c \<noteq> cu (CHR ''+'') \<and> c \<noteq> cu (CHR ''.'')"
  "isDigit c \<Longrightarrow> c \<noteq> cu (CHR ''-'') \<and> c \<noteq> cu (CHR ''v'')"
  by (auto simp: isDigit_def isIdChar_def isSpace_def cu_def)

lemma numericIdentifier_chars: "numericIdentifier n \<Longrightarrow> n \<noteq> [] \<and> (\<forall>c \<in> set n. isDigit c)"
  by (simp add: numericIdentifier_def list_all_iff)

lemma prereleaseIdentifier_chars: "prereleaseIdentifier n \<Longrightarrow> n \<noteq> [] \<and> (\<forall>c \<in> set n. isIdChar c)"
  by (auto simp: prereleaseIdentifier_def numericIdentifier_def list_all_iff digit_facts(1))

lemma trim_length: "length (trim s) \<le> length s"
proof -
  have "length (trim s) = length (dropWhile isSpace (rev (dropWhile isSpace s)))"
    by (simp add: trim_def)
  also have "\<dots> \<le> length (rev (dropWhile isSpace s))" by (rule length_dropWhile_le)
  also have "\<dots> \<le> length s" by (simp add: length_dropWhile_le)
  finally show ?thesis .
qed

lemma parseSemVer_version:
  assumes "parseSemVer raw = Some v"
  shows "parseSemVer (version v) = Some (v\<lparr>build := []\<rparr>)"
proof -
  define t where "t = trim raw"
  define t' where "t' = (case t of [] \<Rightarrow> t | c # cs \<Rightarrow> if c = cu (CHR ''v'') then cs else t)"
  obtain mp b where mpb: "splitFirst (cu (CHR ''+'')) t' = (mp, b)" by (cases "splitFirst (cu (CHR ''+'')) t'")
  obtain m p where mp: "splitFirst (cu (CHR ''-'')) mp = (m, p)" by (cases "splitFirst (cu (CHR ''-'')) mp")
  define nums where "nums = split_on (cu (CHR ''.'')) m"
  define pre where "pre = (case p of None \<Rightarrow> [] | Some ps \<Rightarrow> split_on (cu (CHR ''.'')) ps)"
  define bld where "bld = (case b of None \<Rightarrow> [] | Some bs \<Rightarrow> split_on (cu (CHR ''.'')) bs)"
  define V where "V = join_on (cu (CHR ''.'')) nums @ (if pre = [] then [] else cu (CHR ''-'') # join_on (cu (CHR ''.'')) pre)"
  from assms have len: "length raw \<le> MAX_LENGTH"
    and ok: "length nums = 3" "list_all numericIdentifier nums"
      "list_all (\<lambda>n. \<not> numberLess (Finite (of_int MAX_SAFE_INTEGER)) (toNumber n)
                         \<and> \<not> numberLess (toNumber n) (Finite 0)) nums"
      "list_all prereleaseIdentifier pre"
    and v0: "v = \<lparr> major = toNumber (nums ! 0), minor = toNumber (nums ! 1),
                   patch = toNumber (nums ! 2), prerelease = pre, build = bld,
                   version = join_on (cu (CHR ''.'')) nums
                     @ (if pre = [] then [] else cu (CHR ''-'') # join_on (cu (CHR ''.'')) pre) \<rparr>"
    unfolding parseSemVer_def
    by (auto simp: Let_def mpb mp t_def [symmetric] t'_def [symmetric] nums_def [symmetric]
        pre_def [symmetric] bld_def [symmetric] split: if_splits)
  have v: "v = \<lparr> major = toNumber (nums ! 0), minor = toNumber (nums ! 1),
                   patch = toNumber (nums ! 2), prerelease = pre, build = bld, version = V \<rparr>"
    using v0 by (simp add: V_def)
  have jm: "join_on (cu (CHR ''.'')) nums = m" by (simp add: nums_def join_split_on)
  have Vmp: "V = mp"
  proof (cases p)
    case None
    then show ?thesis using splitFirst_rejoin [OF mp] by (simp add: V_def jm pre_def)
  next
    case (Some ps)
    then show ?thesis
      using splitFirst_rejoin [OF mp] split_on_nonempty [of "cu (CHR ''.'')" ps]
      by (simp add: V_def jm pre_def join_split_on)
  qed
  have nums_digits: "\<forall>n \<in> set nums. n \<noteq> [] \<and> (\<forall>c \<in> set n. isDigit c)"
    using ok(2) numericIdentifier_chars by (auto simp: list_all_iff)
  have pre_chars: "\<forall>n \<in> set pre. n \<noteq> [] \<and> (\<forall>c \<in> set n. isIdChar c)"
    using ok(4) prereleaseIdentifier_chars by (auto simp: list_all_iff)
  have nums_ne: "nums \<noteq> []" using ok(1) by auto
  have m_chars: "\<forall>c \<in> set m. isDigit c \<or> c = cu (CHR ''.'')"
    using set_join_on [of "cu (CHR ''.'')" nums] nums_digits unfolding jm by auto
  have V_chars: "\<forall>c \<in> set V. isIdChar c \<or> c = cu (CHR ''.'')"
  proof -
    have "\<forall>c \<in> set (join_on (cu (CHR ''.'')) pre). isIdChar c \<or> c = cu (CHR ''.'')"
      using set_join_on [of "cu (CHR ''.'')" pre] pre_chars by auto
    moreover have "isIdChar (cu (CHR ''-''))" by (simp add: isIdChar_def cu_def)
    ultimately show ?thesis using m_chars digit_facts(1) by (auto simp: V_def jm)
  qed
  have hdm: "m \<noteq> [] \<and> isDigit (hd m)"
  proof -
    have "hd nums \<in> set nums" using nums_ne by simp
    then have "hd nums \<noteq> [] \<and> (\<forall>c \<in> set (hd nums). isDigit c)" using nums_digits by blast
    then have "join_on (cu (CHR ''.'')) nums \<noteq> [] \<and> isDigit (hd (join_on (cu (CHR ''.'')) nums))"
      using join_on_hd [OF nums_ne, of "cu (CHR ''.'')"] by (metis hd_in_set)
    then show ?thesis by (simp add: jm)
  qed
  have V_ne: "V \<noteq> []" and V_hd: "isDigit (hd V)" using hdm by (simp_all add: V_def jm)
  have V_last: "isIdChar (last V)"
  proof (cases "pre = []")
    case True
    have "last nums \<in> set nums" using nums_ne by simp
    then have "last nums \<noteq> [] \<and> (\<forall>c \<in> set (last nums). isDigit c)" using nums_digits by blast
    then have "isDigit (last (join_on (cu (CHR ''.'')) nums))"
      using join_on_last [OF nums_ne, of "cu (CHR ''.'')"] by (metis last_in_set)
    with True hdm show ?thesis by (simp add: V_def jm digit_facts(1))
  next
    case False
    have "last pre \<in> set pre" using False by simp
    then have "last pre \<noteq> [] \<and> (\<forall>c \<in> set (last pre). isIdChar c)" using pre_chars by blast
    then have "join_on (cu (CHR ''.'')) pre \<noteq> [] \<and> isIdChar (last (join_on (cu (CHR ''.'')) pre))"
      using join_on_last [OF False, of "cu (CHR ''.'')"] by (metis last_in_set)
    with False show ?thesis by (simp add: V_def)
  qed
  have trimV: "trim V = V"
    using V_ne V_hd V_last digit_facts by (intro trim_id) auto
  have noV: "(case V of [] \<Rightarrow> V | c # cs \<Rightarrow> if c = cu (CHR ''v'') then cs else V) = V"
    using V_ne V_hd digit_facts by (cases V) auto
  have plus: "splitFirst (cu (CHR ''+'')) V = (V, None)"
  proof (rule splitFirst_absent)
    show "cu (CHR ''+'') \<notin> set V"
    proof
      assume "cu (CHR ''+'') \<in> set V"
      with V_chars have "isIdChar (cu (CHR ''+'')) \<or> cu (CHR ''+'') = cu (CHR ''.'')" by blast
      then show False by (simp add: isIdChar_def cu_def)
    qed
  qed
  have lenV: "length V \<le> MAX_LENGTH"
  proof -
    have "length mp \<le> length t'" using splitFirst_rejoin [OF mpb] by (cases b) auto
    also have "\<dots> \<le> length t" by (auto simp: t'_def split: list.splits)
    also have "\<dots> \<le> length raw" unfolding t_def by (rule trim_length)
    finally show ?thesis using len Vmp by simp
  qed
  have minus: "splitFirst (cu (CHR ''-'')) V = (m, p)" using mp Vmp by simp
  have "parseSemVer V =
        (if length nums = 3 \<and> list_all numericIdentifier nums
            \<and> list_all (\<lambda>n. \<not> numberLess (Finite (of_int MAX_SAFE_INTEGER)) (toNumber n)
                              \<and> \<not> numberLess (toNumber n) (Finite 0)) nums
            \<and> list_all prereleaseIdentifier pre
         then Some \<lparr> major = toNumber (nums ! 0), minor = toNumber (nums ! 1),
                   patch = toNumber (nums ! 2), prerelease = pre, build = [],
                   version = join_on (cu (CHR ''.'')) nums
                     @ (if pre = [] then [] else cu (CHR ''-'') # join_on (cu (CHR ''.'')) pre) \<rparr>
         else None)"
    unfolding parseSemVer_def using lenV
    by (simp add: Let_def trimV noV plus minus nums_def [symmetric] pre_def [symmetric])
  then have "parseSemVer V = Some (v\<lparr>build := []\<rparr>)"
    using ok by (simp add: v0)
  then show ?thesis by (simp add: v)
qed

text \<open>Digit strings as numbers.\<close>

lemma exponentOf_small: "n < 9007199254740992 \<Longrightarrow> exponentOf n = 0"
  by (subst exponentOf.simps) simp

lemma roundToDouble_small: "n < 9007199254740992 \<Longrightarrow> roundToDouble n = n"
  by (simp add: roundToDouble_def exponentOf_small)

lemma roundToDouble_exact: "n \<le> 9007199254740992 \<Longrightarrow> roundToDouble n = n"
proof (cases "n = 9007199254740992")
  case True
  have "roundToDouble 9007199254740992 = 9007199254740992" by code_simp
  with True show ?thesis by simp
next
  case False
  assume "n \<le> 9007199254740992"
  with False show ?thesis by (simp add: roundToDouble_small)
qed

lemma exponentOf_large:
  "9007199254740992 \<le> n \<Longrightarrow>
     1 \<le> exponentOf n \<and> 4503599627370496 \<le> n div 2 ^ exponentOf n"
proof (induction n rule: exponentOf.induct)
  case (1 n)
  have e: "exponentOf n = Suc (exponentOf (n div 2))"
    using "1.prems" by (subst exponentOf.simps) simp
  show ?case
  proof (cases "n div 2 < 9007199254740992")
    case True
    then have "exponentOf (n div 2) = 0" by (rule exponentOf_small)
    with e "1.prems" show ?thesis by simp
  next
    case False
    then have big: "9007199254740992 \<le> n div 2" by simp
    have "\<not> n < 9007199254740992" using "1.prems" by simp
    from "1.IH" [OF this big]
    have ih: "4503599627370496 \<le> n div 2 div 2 ^ exponentOf (n div 2)" by simp
    have "n div 2 ^ exponentOf n = n div (2 * 2 ^ exponentOf (n div 2))" by (simp add: e)
    also have "\<dots> = n div 2 div 2 ^ exponentOf (n div 2)"
      by (rule zdiv_zmult2_eq) simp
    finally show ?thesis using ih e by simp
  qed
qed

lemma roundToDouble_large:
  assumes "9007199254740992 \<le> n"
  shows "9007199254740992 \<le> roundToDouble n"
proof -
  define e where "e = exponentOf n"
  define q where "q = n div 2 ^ e"
  from exponentOf_large [OF assms] have e1: "1 \<le> e" and q: "4503599627370496 \<le> q"
    by (simp_all add: e_def q_def)
  have "(2::int) ^ 1 \<le> 2 ^ e" using e1 by (intro power_increasing) simp_all
  then have p: "(2::int) \<le> 2 ^ e" by simp
  have "4503599627370496 * 2 \<le> q * 2 ^ e"
    using q p by (intro mult_mono) simp_all
  moreover have "q * 2 ^ e \<le> roundToDouble n"
    unfolding roundToDouble_def Let_def e_def [symmetric] q_def [symmetric]
    by (simp add: mult_right_mono)
  ultimately show ?thesis by simp
qed

lemma digitValue_nonneg: "isDigit c \<Longrightarrow> 0 \<le> digitValue c"
  by (simp add: isDigit_def digitValue_def word_le_def)

lemma foldl_digits_nonneg:
  "list_all isDigit s \<Longrightarrow> 0 \<le> acc \<Longrightarrow> 0 \<le> foldl (\<lambda>n c. 10 * n + digitValue c) acc s"
proof (induction s arbitrary: acc)
  case Nil
  then show ?case by simp
next
  case (Cons c s)
  then have "0 \<le> 10 * acc + digitValue c" using digitValue_nonneg [of c] by simp
  with Cons show ?case by simp
qed

lemma decimal_nonneg: "list_all isDigit s \<Longrightarrow> 0 \<le> decimal s"
  by (simp add: decimal_def foldl_digits_nonneg)

lemma toNumber_exact:
  "decimal s \<le> 9007199254740992 \<Longrightarrow> toNumber s = Finite (of_int (decimal s))"
  by (simp add: toNumber_def numberOfNat_def roundToDouble_exact Let_def)

lemma toNumber_checked:
  assumes "\<not> numberLess (Finite (of_int MAX_SAFE_INTEGER)) (toNumber s)"
  shows "toNumber s = Finite (of_int (decimal s)) \<and> decimal s \<le> MAX_SAFE_INTEGER"
proof (cases "decimal s < 9007199254740992")
  case True
  then show ?thesis using toNumber_exact [of s] by (simp add: MAX_SAFE_INTEGER_def)
next
  case False
  then have "9007199254740992 \<le> roundToDouble (decimal s)" by (intro roundToDouble_large) simp
  then have "numberLess (Finite (of_int MAX_SAFE_INTEGER)) (toNumber s)"
    by (simp add: toNumber_def numberOfNat_def Let_def MAX_SAFE_INTEGER_def)
  with assms show ?thesis by simp
qed

lemma parseSemVer_numbers:
  assumes "parseSemVer raw = Some v"
  shows "\<exists>a b c. major v = Finite a \<and> minor v = Finite b \<and> patch v = Finite c"
proof -
  from assms obtain nums where len: "length nums = 3"
    and ok: "list_all (\<lambda>n. \<not> numberLess (Finite (of_int MAX_SAFE_INTEGER)) (toNumber n)
                         \<and> \<not> numberLess (toNumber n) (Finite 0)) nums"
    and v: "major v = toNumber (nums ! 0)" "minor v = toNumber (nums ! 1)"
           "patch v = toNumber (nums ! 2)"
    unfolding parseSemVer_def
    by (auto simp: Let_def split: if_splits prod.splits)
  have "\<exists>a. toNumber (nums ! i) = Finite a" if "i < 3" for i
  proof -
    have "nums ! i \<in> set nums" using that len by simp
    with ok have "\<not> numberLess (Finite (of_int MAX_SAFE_INTEGER)) (toNumber (nums ! i))"
      by (simp add: list_all_iff)
    from toNumber_checked [OF this] show ?thesis by blast
  qed
  from this [of 0] this [of 1] this [of 2] show ?thesis by (auto simp: v)
qed

text \<open>The package's comparison and the precedence of Semantic Versioning.\<close>

lemma compareNumbers_Finite:
  "compareNumbers (Finite a) (Finite b) = (if a = b then 0 else if a < b then - 1 else 1)"
  by (simp add: compareNumbers_def)

lemma compareIdentifiers_precedes:
  assumes "a \<noteq> b"
    and "\<not> onlyDigits a \<or> decimal a \<le> 9007199254740992"
    and "\<not> onlyDigits b \<or> decimal b \<le> 9007199254740992"
  shows "(compareIdentifiers a b < 0) = identifierPrecedes a b"
proof (cases "onlyDigits a \<and> onlyDigits b")
  case True
  with assms(2,3) have "toNumber a = Finite (of_int (decimal a))"
    and "toNumber b = Finite (of_int (decimal b))"
    by (simp_all add: toNumber_exact)
  with True show ?thesis
    by (simp add: compareIdentifiers_def identifierPrecedes_def onlyDigits_def Let_def
        compareNumbers_Finite)
next
  case False
  with assms(1) show ?thesis
    by (auto simp: compareIdentifiers_def identifierPrecedes_def onlyDigits_def Let_def)
qed

lemma comparePreLoop_precedes:
  assumes "list_all (\<lambda>s. \<not> onlyDigits s \<or> decimal s \<le> 9007199254740992) p"
    and "list_all (\<lambda>s. \<not> onlyDigits s \<or> decimal s \<le> 9007199254740992) q"
  shows "(comparePreLoop p q < 0) = fieldsPrecede p q"
  using assms
proof (induction p q rule: comparePreLoop.induct)
  case (4 a as b bs)
  show ?case
  proof (cases "a = b")
    case True
    with 4 show ?thesis by simp
  next
    case False
    with 4 compareIdentifiers_precedes [OF False] show ?thesis by simp
  qed
qed simp_all

lemma fieldsPrecede_irrefl: "\<not> fieldsPrecede p p"
  by (induction p) simp_all

lemma compareSemVer_precedes:
  assumes "parseSemVer r1 = Some x" and "parseSemVer r2 = Some y"
    and "exactIdentifiers x" and "exactIdentifiers y"
  shows "(compareSemVer x y < 0) = semverPrecedes x y"
proof -
  from parseSemVer_numbers [OF assms(1)] obtain a b c where
    x: "major x = Finite a" "minor x = Finite b" "patch x = Finite c" by blast
  from parseSemVer_numbers [OF assms(2)] obtain a' b' c' where
    y: "major y = Finite a'" "minor y = Finite b'" "patch y = Finite c'" by blast
  show ?thesis
  proof (cases "version y = version x")
    case True
    have "x\<lparr>build := []\<rparr> = y\<lparr>build := []\<rparr>"
      using parseSemVer_version [OF assms(1)] parseSemVer_version [OF assms(2)] True by simp
    then have same: "major x = major y" "minor x = minor y" "patch x = patch y"
      "prerelease x = prerelease y"
      by (metis SemVer.select_convs SemVer.surjective SemVer.update_convs(5))+
    have "\<not> semverPrecedes x y"
      using fieldsPrecede_irrefl [of "prerelease y"] by (simp add: semverPrecedes_def same y)
    with True show ?thesis by (simp add: compareSemVer_def)
  next
    case False
    have pre: "(comparePre x y < 0) =
         ((prerelease x \<noteq> [] \<and> prerelease y = [])
          \<or> (prerelease x \<noteq> [] \<and> prerelease y \<noteq> []
              \<and> fieldsPrecede (prerelease x) (prerelease y)))"
      using comparePreLoop_precedes [of "prerelease x" "prerelease y"] assms(3,4)
      by (simp add: comparePre_def exactIdentifiers_def)
    show ?thesis
      using False pre
      by (auto simp: compareSemVer_def compareMain_def semverPrecedes_def x y
          compareNumbers_Finite split: if_splits)
  qed
qed

section \<open>Properties of the configuration update\<close>

lemma map_of_setProp: "map_of (setProp k v ps) k' = (if k' = k then Some v else map_of ps k')"
  by (induction ps) auto

lemma getProp_setProp: "getProp k' (setProp k v ps) = (if k' = k then v else getProp k' ps)"
  by (simp add: getProp_def map_of_setProp)

lemma keys_setProp: "fst ` set (setProp k v ps) = insert k (fst ` set ps)"
  by (induction ps) auto

lemma distinct_setProp: "distinct (map fst ps) \<Longrightarrow> distinct (map fst (setProp k v ps))"
proof (induction ps)
  case Nil
  then show ?case by simp
next
  case (Cons p ps)
  then show ?case using keys_setProp [of k v ps] by (auto simp: image_iff)
qed

lemma roundTrips_toJSON: "roundTrips v \<Longrightarrow> toJSON v = v"
proof (induction v rule: toJSON.induct)
  case (1 n)
  then show ?case by (cases n) simp_all
next
  case (2 xs)
  have nu: "x \<noteq> Undefined" if "roundTrips x" for x using that by auto
  from 2 have "\<forall>x \<in> set xs. x \<noteq> Undefined \<and> toJSON x = x"
    using nu by (auto simp: list_all_iff)
  then have "map (\<lambda>x. if x = Undefined then JNull else toJSON x) xs = xs"
    by (induction xs) auto
  then show ?case by simp
next
  case (3 ps)
  have nu: "x \<noteq> Undefined" if "roundTrips x" for x using that by auto
  from 3 have a: "\<forall>p \<in> set ps. snd p \<noteq> Undefined \<and> toJSON (snd p) = snd p"
    using nu by (auto simp: list_all_iff)
  then have "filter (\<lambda>p. snd p \<noteq> Undefined) ps = ps" by (induction ps) auto
  moreover have "map (\<lambda>p. (fst p, toJSON (snd p))) ps = ps" using a by (induction ps) auto
  ultimately show ?case by simp
qed simp_all

lemma getProp_toJSON_props:
  assumes "distinct (map fst ps)"
  shows "getProp k (map (\<lambda>p. (fst p, toJSON (snd p))) (filter (\<lambda>p. snd p \<noteq> Undefined) ps))
         = toJSON (getProp k ps)"
  using assms
proof (induction ps)
  case Nil
  then show ?case by (simp add: getProp_def)
next
  case (Cons p ps)
  show ?case
  proof (cases "fst p = k")
    case True
    then have "map_of ps k = None" using Cons.prems by (auto simp: map_of_eq_None_iff image_iff)
    then have notin: "k \<notin> fst ` set (filter (\<lambda>p. snd p \<noteq> Undefined) ps)"
      by (auto simp: map_of_eq_None_iff image_iff)
    have "map_of (map (\<lambda>p. (fst p, toJSON (snd p))) (filter (\<lambda>p. snd p \<noteq> Undefined) ps)) k = None"
      using notin by (auto simp: map_of_eq_None_iff image_iff)
    with True show ?thesis by (cases p) (auto simp: getProp_def)
  next
    case False
    with Cons show ?thesis by (cases p) (auto simp: getProp_def)
  qed
qed

lemma memberOf_toJSON:
  "distinct (map fst ps) \<Longrightarrow> memberOf k (toJSON (JObject ps)) = toJSON (getProp k ps)"
  by (simp add: memberOf_def getProp_toJSON_props)

lemma isJson_member:
  assumes "isJson (JObject ps)" and "getProp k ps = JObject ms"
  shows "isJson (JObject ms)"
proof -
  from assms(2) have "map_of ps k = Some (JObject ms)"
    by (auto simp: getProp_def split: option.splits)
  then have "(k, JObject ms) \<in> set ps" by (rule map_of_SomeD)
  moreover from assms(1) have "\<forall>p \<in> set ps. isJson (snd p)" by (simp add: list_all_iff)
  ultimately have "isJson (snd (k, JObject ms))" by blast
  then show ?thesis by simp
qed

lemma memberOf_falsy: "\<not> truthyValue v \<Longrightarrow> memberOf k v = Undefined"
  by (cases v) (auto simp: memberOf_def)

lemma notin_set_tl: "x \<notin> set xs \<Longrightarrow> x \<notin> set (tl xs)"
  by (cases xs) auto

lemma hasDuplicateBlockE:
  assumes "hasDuplicateBlock xs"
  obtains i len where "duplicateBlockAt xs i len"
  using assms unfolding hasDuplicateBlock_def list_ex_iff by blast

lemma hasDuplicateBlock_fresh_head:
  assumes "hasDuplicateBlock (h # segs)" and "h \<notin> set segs"
  shows "hasDuplicateBlock segs"
proof -
  from assms(1) obtain i len where d: "duplicateBlockAt (h # segs) i len"
    by (rule hasDuplicateBlockE)
  then have len: "0 < len" and bound: "i + 2 * len \<le> Suc (length segs)"
    and eq: "slice (h # segs) i (i + len) = slice (h # segs) (i + len) (i + 2 * len)"
    by (simp_all add: duplicateBlockAt_def)
  obtain k where k: "len = Suc k" using len by (cases len) auto
  show ?thesis
  proof (cases i)
    case 0
    have "h \<in> set (slice (h # segs) i (i + len))" by (simp add: 0 slice_def k)
    then have "h \<in> set (slice (h # segs) (i + len) (i + 2 * len))" using eq by simp
    then have "h \<in> set segs"
      by (auto simp: 0 slice_def k dest!: in_set_takeD in_set_dropD)
    with assms(2) show ?thesis by simp
  next
    case (Suc j)
    have "duplicateBlockAt segs j len"
      using len bound eq by (simp add: duplicateBlockAt_def Suc slice_def)
    then show ?thesis by (rule hasDuplicateBlockI)
  qed
qed

lemma hasDuplicateBlock_rootParts:
  assumes "list_all (plainSegment pm) segs" and "rootOn pm r"
    and "\<not> hasDuplicateBlock segs"
  shows "\<not> hasDuplicateBlock (rootParts r @ segs)"
proof (cases r)
  case Relative
  with assms(3) show ?thesis by (simp add: rootParts_def)
next
  case Rooted
  have "[] \<notin> set segs" using rootParts_fresh(1) [OF assms(1,2)] Rooted by (simp add: rootParts_def)
  with assms(3) Rooted show ?thesis
    by (auto simp: rootParts_def dest: hasDuplicateBlock_fresh_head)
next
  case (Drive d)
  have "[d, CHR '':''] \<notin> set segs"
    using rootParts_fresh(1) [OF assms(1,2)] Drive by (simp add: rootParts_def)
  with assms(3) Drive show ?thesis
    by (auto simp: rootParts_def dest: hasDuplicateBlock_fresh_head)
qed

text \<open>
  On Windows \<open>normalizeDuplicateSegments\<close> puts a separator in front of every path that
  \<open>path.isAbsolute\<close> accepts, so a path from a drive root or a UNC root comes back with a
  backslash before the drive letter or with one backslash less before the server, while
  \<open>removeDuplicatePathSegments\<close> keeps the drive root through \<open>path.join\<close>.
\<close>

lemma windows_drive_paths:
  "normalizeDuplicateSegments Win32 (backslashed ''C:/Users/u/vault'')
     = backslashed ''/C:/Users/u/vault''"
  "normalizeDuplicateSegments Win32 (backslashed ''C:/Users/u/Users/u/vault'')
     = backslashed ''/C:/Users/u/vault''"
  "normalizeDuplicateSegments Win32 (backslashed ''//server/share/vault'')
     = backslashed ''/server/share/vault''"
  "removeDuplicatePathSegments Win32 (backslashed ''C:/Users/u/Users/u/vault'')
     = backslashed ''C:/Users/u/vault''"
  "removeDuplicatePathSegments Win32 (backslashed ''//server/share/vault'')
     = backslashed ''/server/share/vault''"
  by code_simp+

text \<open>
  C2, as the code has it. Both normalisers are greedy: a block that is repeated inside
  itself is shortened before the repetition of the whole block is seen. Where no segment
  occurs twice in \<open>prefix + B + suffix\<close>, \<open>normalizeDuplicateSegments\<close> returns for a path
  with the segments \<open>prefix + B + B + suffix\<close> what it returns for a path with the segments
  \<open>prefix + B + suffix\<close> (on the same platform, both absolute or both not), and the result
  has the segments \<open>prefix + B + suffix\<close>. For a path written from plain segments, relative
  or from the root, the result is the path \<open>prefix + B + suffix\<close> itself, from both
  normalisers; \<open>removeDuplicatePathSegments\<close> returns it for a path from a drive root too.
\<close>

theorem duplicate_block_collapse:
  assumes "B \<noteq> []" and "distinct (P @ B @ S)"
  shows "(segmentsOf pm x = P @ B @ B @ S \<and> segmentsOf pm y = P @ B @ S
            \<and> isAbsolute pm x = isAbsolute pm y
          \<longrightarrow> normalizeDuplicateSegments pm x = normalizeDuplicateSegments pm y
              \<and> segmentsOf pm (normalizeDuplicateSegments pm x) = P @ B @ S)
       \<and> (list_all (plainSegment pm) (P @ B @ S) \<and> (r = Relative \<or> r = Rooted)
          \<longrightarrow> normalizeDuplicateSegments pm (path_of pm r (P @ B @ B @ S)) = path_of pm r (P @ B @ S)
              \<and> normalizeDuplicateSegments pm (path_of pm r (P @ B @ S)) = path_of pm r (P @ B @ S))
       \<and> (list_all (plainSegment pm) (P @ B @ S) \<and> rootOn pm r
          \<longrightarrow> removeDuplicatePathSegments pm (path_of pm r (P @ B @ B @ S)) = path_of pm r (P @ B @ S)
              \<and> removeDuplicatePathSegments pm (path_of pm r (P @ B @ S)) = path_of pm r (P @ B @ S))"
proof (intro conjI impI)
  assume a: "segmentsOf pm x = P @ B @ B @ S \<and> segmentsOf pm y = P @ B @ S
            \<and> isAbsolute pm x = isAbsolute pm y"
  have lx: "normalizeLoop (segmentsOf pm x) 0 [] = P @ B @ S"
    using a normalizeLoop_block [OF assms(2,1)] by simp
  have ly: "normalizeLoop (segmentsOf pm y) 0 [] = P @ B @ S"
    using a normalizeLoop_distinct [OF assms(2)] by simp
  show "normalizeDuplicateSegments pm x = normalizeDuplicateSegments pm y"
    using a lx ly by (simp add: normalizeDuplicateSegments_unfold)
  show "segmentsOf pm (normalizeDuplicateSegments pm x) = P @ B @ S"
    using lx by (simp add: segmentsOf_normalized)
next
  assume a: "list_all (plainSegment pm) (P @ B @ S) \<and> (r = Relative \<or> r = Rooted)"
  then have plain: "list_all (plainSegment pm) (P @ B @ S)"
    and plain2: "list_all (plainSegment pm) (P @ B @ B @ S)"
    and r: "r = Relative \<or> r = Rooted"
    by simp_all
  show "normalizeDuplicateSegments pm (path_of pm r (P @ B @ B @ S)) = path_of pm r (P @ B @ S)"
    using normalizeDuplicateSegments_path_of [OF plain2 r] normalizeLoop_block [OF assms(2,1)]
    by simp
  show "normalizeDuplicateSegments pm (path_of pm r (P @ B @ S)) = path_of pm r (P @ B @ S)"
    using normalizeDuplicateSegments_path_of [OF plain r] normalizeLoop_distinct [OF assms(2)]
    by simp
next
  assume a: "list_all (plainSegment pm) (P @ B @ S) \<and> rootOn pm r"
  then have plain: "list_all (plainSegment pm) (P @ B @ S)"
    and plain2: "list_all (plainSegment pm) (P @ B @ B @ S)"
    and r: "rootOn pm r"
    by simp_all
  have ne: "P @ B @ S \<noteq> []" "P @ B @ B @ S \<noteq> []" using assms(1) by simp_all
  note fresh = rootParts_fresh [OF plain r]
  have noempty: "[] \<notin> set (P @ B @ S)"
    using plain by (auto simp: list_all_iff plainSegment_def)
  have dist: "distinct ((rootParts r @ P) @ B @ S)"
    using assms(2) fresh(1,2) by auto
  have tl1: "[] \<notin> set (tl ((rootParts r @ P) @ B))"
  proof -
    have "list_all (plainSegment pm) (P @ B)" using plain by simp
    from rootParts_fresh(3) [OF this r] show ?thesis by simp
  qed
  have r2: "removeLoop (rootParts r @ P @ B @ B @ S) 0 [] = rootParts r @ P @ B @ S"
    using removeLoop_block [OF dist assms(1) tl1] noempty by simp
  have r1: "removeLoop (rootParts r @ P @ B @ S) 0 [] = rootParts r @ P @ B @ S"
    using removeLoop_distinct [of "rootParts r @ P @ B @ S"] dist fresh(3) by simp
  show "removeDuplicatePathSegments pm (path_of pm r (P @ B @ B @ S)) = path_of pm r (P @ B @ S)"
    by (rule removeDuplicatePathSegments_path_of [OF plain2 ne(2) plain ne(1) r r2])
  show "removeDuplicatePathSegments pm (path_of pm r (P @ B @ S)) = path_of pm r (P @ B @ S)"
    by (rule removeDuplicatePathSegments_path_of [OF plain ne(1) plain ne(1) r r1])
qed

theorem duplicate_block_collapse_witness:
  "[''home'', ''alice''] \<noteq> []
   \<and> distinct ([] @ [''home'', ''alice''] @ [''vault''])
   \<and> list_all (plainSegment Posix) ([] @ [''home'', ''alice''] @ [''vault''])
   \<and> segmentsOf Posix ''/home/alice/home/alice/vault''
       = [] @ [''home'', ''alice''] @ [''home'', ''alice''] @ [''vault'']
   \<and> normalizeDuplicateSegments Posix ''/home/alice/home/alice/vault'' = ''/home/alice/vault''
   \<and> segmentsOf Posix (normalizeDuplicateSegments Posix ''/home/alice/home/alice/vault'')
       = [''home'', ''alice'', ''vault'']
   \<and> removeDuplicatePathSegments Posix ''/home/alice/home/alice/vault'' = ''/home/alice/vault''
   \<and> list_all (plainSegment Win32) ([''Users''] @ [''u''] @ [''vault''])
   \<and> rootOn Win32 (Drive (CHR ''C''))
   \<and> removeDuplicatePathSegments Win32 (backslashed ''C:/Users/u/u/vault'')
       = backslashed ''C:/Users/u/vault''
   \<and> normalizeDuplicateSegments Win32 (backslashed ''/Users/u/u/vault'')
       = backslashed ''/Users/u/vault''"
proof -
  have ne: "[''home'', ''alice''] \<noteq> []" and ne': "[''u''] \<noteq> []" by simp_all
  have d: "distinct ([] @ [''home'', ''alice''] @ [''vault''])"
    and d': "distinct ([''Users''] @ [''u''] @ [''vault''])" by simp_all
  have p: "list_all (plainSegment Posix) ([] @ [''home'', ''alice''] @ [''vault''])"
    and p': "list_all (plainSegment Win32) ([''Users''] @ [''u''] @ [''vault''])"
    by (simp_all add: plainSegment_def path_sep_def)
  have ro: "rootOn Win32 (Drive (CHR ''C''))" by (simp add: rootOn_def isWindowsDeviceRoot_def)
  have sx: "segmentsOf Posix ''/home/alice/home/alice/vault''
       = [] @ [''home'', ''alice''] @ [''home'', ''alice''] @ [''vault'']" by code_simp
  have sy: "segmentsOf Posix ''/home/alice/vault'' = [] @ [''home'', ''alice''] @ [''vault'']"
    by code_simp
  have ab: "isAbsolute Posix ''/home/alice/home/alice/vault'' = isAbsolute Posix ''/home/alice/vault''"
    by (simp add: isAbsolute_def)
  have px: "path_of Posix Rooted ([] @ [''home'', ''alice''] @ [''home'', ''alice''] @ [''vault''])
       = ''/home/alice/home/alice/vault''"
    and py: "path_of Posix Rooted ([] @ [''home'', ''alice''] @ [''vault'']) = ''/home/alice/vault''"
    by (simp_all add: path_of_def path_sep_def)
  have wx: "path_of Win32 (Drive (CHR ''C'')) ([''Users''] @ [''u''] @ [''u''] @ [''vault''])
       = backslashed ''C:/Users/u/u/vault''"
    and wy: "path_of Win32 (Drive (CHR ''C'')) ([''Users''] @ [''u''] @ [''vault''])
       = backslashed ''C:/Users/u/vault''"
    and wx': "path_of Win32 Rooted ([''Users''] @ [''u''] @ [''u''] @ [''vault''])
       = backslashed ''/Users/u/u/vault''"
    and wy': "path_of Win32 Rooted ([''Users''] @ [''u''] @ [''vault''])
       = backslashed ''/Users/u/vault''"
    by (simp_all add: path_of_def path_sep_def backslashed_def)
  note posix = duplicate_block_collapse [OF ne d, of Posix "''/home/alice/home/alice/vault''"
      "''/home/alice/vault''" Rooted]
  note drive = duplicate_block_collapse [OF ne' d', of Win32 _ _ "Drive (CHR ''C'')"]
  note rooted = duplicate_block_collapse [OF ne' d', of Win32 _ _ Rooted]
  have 1: "normalizeDuplicateSegments Posix ''/home/alice/home/alice/vault'' = ''/home/alice/vault''"
    using posix p unfolding px py by simp
  have "segmentsOf Posix (normalizeDuplicateSegments Posix ''/home/alice/home/alice/vault'')
       = [] @ [''home'', ''alice''] @ [''vault'']"
    using posix sx sy ab by blast
  then have 2: "segmentsOf Posix (normalizeDuplicateSegments Posix ''/home/alice/home/alice/vault'')
       = [''home'', ''alice'', ''vault'']"
    by simp
  have 3: "removeDuplicatePathSegments Posix ''/home/alice/home/alice/vault'' = ''/home/alice/vault''"
    using posix p unfolding px py by (simp add: rootOn_def)
  have 4: "removeDuplicatePathSegments Win32 (backslashed ''C:/Users/u/u/vault'')
       = backslashed ''C:/Users/u/vault''"
    using drive p' ro unfolding wx wy by simp
  have 5: "normalizeDuplicateSegments Win32 (backslashed ''/Users/u/u/vault'')
       = backslashed ''/Users/u/vault''"
    using rooted p' unfolding wx' wy' by simp
  show ?thesis using ne d p sx 1 2 3 p' ro 4 5 by blast
qed

text \<open>
  C2 as stated fails: with \<open>B = [a, a, b]\<close> and empty prefix and suffix, the path
  \<open>B + B\<close> is normalised to \<open>/a/b/a/b\<close> while \<open>B\<close> alone is normalised to \<open>/a/b\<close>.
  It also fails where \<open>prefix + B + suffix\<close> has no repeated block at all: with prefix
  \<open>[a, b, c, b, a]\<close> and \<open>B = [b, c]\<close> the longer path loses the repeat \<open>a b c b\<close> first.
\<close>

theorem duplicate_block_collapse_counterexample:
  "normalizeDuplicateSegments Posix
       (path_of Posix Rooted ([] @ [''a'', ''a'', ''b''] @ [''a'', ''a'', ''b''] @ [])) = ''/a/b/a/b''
   \<and> normalizeDuplicateSegments Posix (path_of Posix Rooted ([] @ [''a'', ''a'', ''b''] @ [])) = ''/a/b''
   \<and> removeDuplicatePathSegments Posix
       (path_of Posix Rooted ([] @ [''a'', ''a'', ''b''] @ [''a'', ''a'', ''b''] @ [])) = ''/a/b/a/b''
   \<and> removeDuplicatePathSegments Posix (path_of Posix Rooted ([] @ [''a'', ''a'', ''b''] @ [])) = ''/a/b''
   \<and> normalizeDuplicateSegments Posix
         (path_of Posix Rooted ([''a'', ''b'', ''c'', ''b'', ''a''] @ [''b'', ''c''] @ [''b'', ''c''] @ []))
       = ''/a/b/c''
   \<and> normalizeDuplicateSegments Posix
         (path_of Posix Rooted ([''a'', ''b'', ''c'', ''b'', ''a''] @ [''b'', ''c''] @ []))
       = ''/a/b/c/b/a/b/c''"
  by code_simp

text \<open>
  C7, as the code has it. \<open>normalizeDuplicateSegments\<close> returns the empty path for the
  empty path, and both normalisers return the root for the root (\<open>/\<close> on POSIX). A path
  without a duplicate consecutive segment block keeps its segments; it is returned
  unchanged when it is written from plain segments, relative or from the root, by both
  normalisers, and from a drive root by \<open>removeDuplicatePathSegments\<close>.
\<close>

theorem path_edge_cases:
  "normalizeDuplicateSegments pm '''' = ''''
   \<and> normalizeDuplicateSegments pm [path_sep pm] = [path_sep pm]
   \<and> normalizeDuplicateSegments Posix ''/'' = ''/''
   \<and> removeDuplicatePathSegments pm [path_sep pm] = [path_sep pm]
   \<and> removeDuplicatePathSegments Posix ''/'' = ''/''
   \<and> (\<not> hasDuplicateBlock (segmentsOf pm x)
      \<longrightarrow> segmentsOf pm (normalizeDuplicateSegments pm x) = segmentsOf pm x)
   \<and> (list_all (plainSegment pm) segs \<and> \<not> hasDuplicateBlock segs \<and> (r = Relative \<or> r = Rooted)
      \<longrightarrow> normalizeDuplicateSegments pm (path_of pm r segs) = path_of pm r segs)
   \<and> (list_all (plainSegment pm) segs \<and> \<not> hasDuplicateBlock segs \<and> segs \<noteq> [] \<and> rootOn pm r
      \<longrightarrow> removeDuplicatePathSegments pm (path_of pm r segs) = path_of pm r segs)"
proof (intro conjI impI)
  show "normalizeDuplicateSegments pm '''' = ''''"
    by (cases pm) (simp_all add: normalizeDuplicateSegments_unfold segmentsOf_def split_on_Nil
        isAbsolute_def normalizeLoop_end)
  have root_segments: "segmentsOf pm [path_sep pm] = []"
    by (simp add: segmentsOf_def split_on_sep split_on_Nil)
  show "normalizeDuplicateSegments pm [path_sep pm] = [path_sep pm]"
    using isAbsolute_rooted [of pm "[]"]
    by (simp add: normalizeDuplicateSegments_unfold root_segments normalizeLoop_end)
  show "normalizeDuplicateSegments Posix ''/'' = ''/''" by code_simp
  have "removeLoop [[], []] 0 [] = [[]]"
    by (subst removeLoop.simps, simp, subst removeLoop.simps, simp, subst removeLoop.simps) simp
  then show "removeDuplicatePathSegments pm [path_sep pm] = [path_sep pm]"
    by (simp add: removeDuplicatePathSegments_def split_on_sep split_on_Nil)
  show "removeDuplicatePathSegments Posix ''/'' = ''/''" by code_simp
next
  assume "\<not> hasDuplicateBlock (segmentsOf pm x)"
  then show "segmentsOf pm (normalizeDuplicateSegments pm x) = segmentsOf pm x"
    by (simp add: segmentsOf_normalized normalizeLoop_no_block)
next
  assume a: "list_all (plainSegment pm) segs \<and> \<not> hasDuplicateBlock segs
      \<and> (r = Relative \<or> r = Rooted)"
  then have plain: "list_all (plainSegment pm) segs" and r: "r = Relative \<or> r = Rooted"
    by simp_all
  show "normalizeDuplicateSegments pm (path_of pm r segs) = path_of pm r segs"
    using normalizeDuplicateSegments_path_of [OF plain r] a normalizeLoop_no_block by simp
next
  assume a: "list_all (plainSegment pm) segs \<and> \<not> hasDuplicateBlock segs \<and> segs \<noteq> []
      \<and> rootOn pm r"
  then have plain: "list_all (plainSegment pm) segs" and nd: "\<not> hasDuplicateBlock segs"
    and ne: "segs \<noteq> []" and r: "rootOn pm r"
    by simp_all
  have "removeLoop (rootParts r @ segs) 0 [] = rootParts r @ segs"
    using hasDuplicateBlock_rootParts [OF plain r nd] rootParts_fresh(3) [OF plain r]
    by (rule removeLoop_no_block)
  then show "removeDuplicatePathSegments pm (path_of pm r segs) = path_of pm r segs"
    by (rule removeDuplicatePathSegments_path_of [OF plain ne plain ne r])
qed

theorem path_edge_cases_witness:
  "list_all (plainSegment Posix) [''home'', ''user'', ''vault'', ''user'']
   \<and> \<not> hasDuplicateBlock [''home'', ''user'', ''vault'', ''user'']
   \<and> normalizeDuplicateSegments Posix ''/home/user/vault/user'' = ''/home/user/vault/user''
   \<and> removeDuplicatePathSegments Posix ''/home/user/vault/user'' = ''/home/user/vault/user''
   \<and> list_all (plainSegment Win32) [''Users'', ''u'', ''vault'']
   \<and> \<not> hasDuplicateBlock [''Users'', ''u'', ''vault'']
   \<and> rootOn Win32 (Drive (CHR ''C''))
   \<and> removeDuplicatePathSegments Win32 (backslashed ''C:/Users/u/vault'')
       = backslashed ''C:/Users/u/vault''
   \<and> \<not> hasDuplicateBlock (segmentsOf Win32 (backslashed ''C:/Users/u/vault''))
   \<and> segmentsOf Win32 (normalizeDuplicateSegments Win32 (backslashed ''C:/Users/u/vault''))
       = segmentsOf Win32 (backslashed ''C:/Users/u/vault'')"
proof -
  have p: "list_all (plainSegment Posix) [''home'', ''user'', ''vault'', ''user'']"
    and p': "list_all (plainSegment Win32) [''Users'', ''u'', ''vault'']"
    by (simp_all add: plainSegment_def path_sep_def)
  have d: "\<not> hasDuplicateBlock [''home'', ''user'', ''vault'', ''user'']"
    and d': "\<not> hasDuplicateBlock [''Users'', ''u'', ''vault'']"
    and d'': "\<not> hasDuplicateBlock (segmentsOf Win32 (backslashed ''C:/Users/u/vault''))"
    by code_simp+
  have ro: "rootOn Win32 (Drive (CHR ''C''))" by (simp add: rootOn_def isWindowsDeviceRoot_def)
  have px: "path_of Posix Rooted [''home'', ''user'', ''vault'', ''user''] = ''/home/user/vault/user''"
    by (simp add: path_of_def path_sep_def)
  have wx: "path_of Win32 (Drive (CHR ''C'')) [''Users'', ''u'', ''vault'']
      = backslashed ''C:/Users/u/vault''"
    by (simp add: path_of_def path_sep_def backslashed_def)
  note posix = path_edge_cases [of Posix _ "[''home'', ''user'', ''vault'', ''user'']" Rooted]
  note drive = path_edge_cases [of Win32 "backslashed ''C:/Users/u/vault''"
      "[''Users'', ''u'', ''vault'']" "Drive (CHR ''C'')"]
  have 1: "normalizeDuplicateSegments Posix ''/home/user/vault/user'' = ''/home/user/vault/user''"
    and 2: "removeDuplicatePathSegments Posix ''/home/user/vault/user'' = ''/home/user/vault/user''"
    using posix p d unfolding px by (simp_all add: rootOn_def)
  have 3: "removeDuplicatePathSegments Win32 (backslashed ''C:/Users/u/vault'')
       = backslashed ''C:/Users/u/vault''"
    using drive p' d' ro unfolding wx by simp
  have 4: "segmentsOf Win32 (normalizeDuplicateSegments Win32 (backslashed ''C:/Users/u/vault''))
       = segmentsOf Win32 (backslashed ''C:/Users/u/vault'')"
    using drive d'' by simp
  show ?thesis using p d 1 2 p' d' ro 3 d'' 4 by blast
qed

text \<open>
  C7 as stated fails: the normaliser drops empty segments, so a path that ends with a
  separator, or has two separators in a row, has no duplicate consecutive segment block
  and yet is not returned unchanged.
\<close>

theorem path_edge_cases_counterexample:
  "\<not> hasDuplicateBlock (split_on (CHR ''/'') ''/home/user/'')
   \<and> \<not> hasDuplicateBlock (segmentsOf Posix ''/home/user/'')
   \<and> normalizeDuplicateSegments Posix ''/home/user/'' = ''/home/user''
   \<and> normalizeDuplicateSegments Posix ''/home/user/'' \<noteq> ''/home/user/''
   \<and> \<not> hasDuplicateBlock (split_on (CHR ''/'') ''home//user'')
   \<and> normalizeDuplicateSegments Posix ''home//user'' = ''home/user''"
  by code_simp

lemma clean_parses:
  assumes "clean s = Some sv"
  shows "\<exists>x. parseSemVer sv = Some x"
proof -
  from assms obtain v where
    "parseSemVer (dropWhile (\<lambda>c. c = cu (CHR ''='') \<or> c = cu (CHR ''v'')) (trim s)) = Some v"
    and "sv = version v"
    by (auto simp: clean_def)
  then show ?thesis using parseSemVer_version by blast
qed

lemma valid_parses:
  assumes "valid t = Some pv"
  shows "\<exists>y. parseSemVer pv = Some y"
proof -
  from assms obtain s v where "t = Some s" and "parseSemVer s = Some v" and "pv = version v"
    by (auto simp: valid_def split: option.splits)
  then show ?thesis using parseSemVer_version by blast
qed

lemma lt_defined:
  assumes "clean s = Some sv" and "valid t = Some pv"
  shows "\<exists>x y. parseSemVer sv = Some x \<and> parseSemVer pv = Some y
           \<and> lt sv pv = Some (compareSemVer x y < 0)"
  using clean_parses [OF assms(1)] valid_parses [OF assms(2)] by (auto simp: lt_def)

lemma example_install_path:
  "getInstallPath (examplePlugin v) (exampleSystem executable p) = Resolved (Inr exampleInfo)"
  by (simp add: getInstallPath_def examplePlugin_def exampleSystem_def exampleInfo_def
      getPlatform_def settingOf_def truthy_def BINARY_NAME_def nodePath_def Let_def) code_simp

text \<open>
  C3, as the code has it. With a valid plugin version, an API key, a determined install
  path, an executable binary and a version output that \<open>clean\<close> accepts, both cleaned
  versions parse, the query resolves, and its state is \<open>outdated\<close> or \<open>installed\<close>.
  Where every numeric prerelease identifier of the two versions is at most \<open>2^53\<close>, the
  state is \<open>outdated\<close> exactly when the server version precedes the plugin version in
  Semantic Versioning precedence.
\<close>

theorem status_outdated_iff_older:
  assumes "valid (clean (manifestVersion plugin)) = Some pv"
    and "truthy (localRestApiKey plugin)"
    and "getInstallPath plugin sys = Resolved (Inr info)"
    and "accessExecutable sys (path info)"
    and "childProcess sys (versionCommand info) = Exits 0 stdout"
    and "clean (trim stdout) = Some sv"
  shows "\<exists>x y older. parseSemVer sv = Some x \<and> parseSemVer pv = Some y
           \<and> getInstallationStatus plugin sys =
               Resolved \<lparr> state = (if older then Outdated else Installed),
                          installPath = Some info, versionsPlugin = Some pv,
                          versionsServer = Some sv, error = None \<rparr>
           \<and> (exactIdentifiers x \<and> exactIdentifiers y \<longrightarrow> older = semverPrecedes x y)"
proof -
  from lt_defined [OF assms(6,1)] obtain x y where
    xy: "parseSemVer sv = Some x" "parseSemVer pv = Some y"
        "lt sv pv = Some (compareSemVer x y < 0)"
    by blast
  have "getInstallationStatus plugin sys =
          Resolved \<lparr> state = (if compareSemVer x y < 0 then Outdated else Installed),
                     installPath = Some info, versionsPlugin = Some pv,
                     versionsServer = Some sv, error = None \<rparr>"
    using assms xy(3)
    by (simp add: getInstallationStatus_def execAsync_def Let_def)
  moreover have "exactIdentifiers x \<and> exactIdentifiers y
      \<longrightarrow> (compareSemVer x y < 0) = semverPrecedes x y"
    using compareSemVer_precedes [OF xy(1,2)] by blast
  ultimately show ?thesis using xy(1,2) by blast
qed

theorem status_outdated_iff_older_witness:
  "getInstallationStatus (examplePlugin ''0.2.27'')
       (exampleSystem True (Exits 0 (js ''0.2.26'')))
     = Resolved \<lparr> state = Outdated, installPath = Some exampleInfo,
                  versionsPlugin = Some (js ''0.2.27''), versionsServer = Some (js ''0.2.26''),
                  error = None \<rparr>
   \<and> getInstallationStatus (examplePlugin ''0.2.27'')
       (exampleSystem True (Exits 0 (0xFEFF # js ''v0.2.27'' @ [0x000A])))
     = Resolved \<lparr> state = Installed, installPath = Some exampleInfo,
                  versionsPlugin = Some (js ''0.2.27''), versionsServer = Some (js ''0.2.27''),
                  error = None \<rparr>
   \<and> getInstallationStatus (examplePlugin ''0.9.0'')
       (exampleSystem True (Exits 0 (js ''0.10.0-rc.1'')))
     = Resolved \<lparr> state = Installed, installPath = Some exampleInfo,
                  versionsPlugin = Some (js ''0.9.0''), versionsServer = Some (js ''0.10.0-rc.1''),
                  error = None \<rparr>"
proof -
  have key: "truthy (localRestApiKey (examplePlugin v))" for v
    by (simp add: examplePlugin_def truthy_def)
  have acc: "accessExecutable (exampleSystem True p) (path exampleInfo)" for p
    by (simp add: exampleSystem_def)
  have proc: "childProcess (exampleSystem True p) (versionCommand exampleInfo) = p" for p
    by (simp add: exampleSystem_def)
  have pv: "valid (clean (manifestVersion (examplePlugin ''0.2.27''))) = Some (js ''0.2.27'')"
    unfolding examplePlugin_def by (simp, code_simp)
  have pv9: "valid (clean (manifestVersion (examplePlugin ''0.9.0''))) = Some (js ''0.9.0'')"
    unfolding examplePlugin_def by (simp, code_simp)
  have sv1: "clean (trim (js ''0.2.26'')) = Some (js ''0.2.26'')" by code_simp
  have sv2: "clean (trim (0xFEFF # js ''v0.2.27'' @ [0x000A])) = Some (js ''0.2.27'')" by code_simp
  have sv3: "clean (trim (js ''0.10.0-rc.1'')) = Some (js ''0.10.0-rc.1'')" by code_simp
  have ex: "exactIdentifiers (the (parseSemVer (js ''0.2.26'')))"
    "exactIdentifiers (the (parseSemVer (js ''0.2.27'')))"
    "exactIdentifiers (the (parseSemVer (js ''0.9.0'')))"
    "exactIdentifiers (the (parseSemVer (js ''0.10.0-rc.1'')))"
    by code_simp+
  have o1: "semverPrecedes (the (parseSemVer (js ''0.2.26''))) (the (parseSemVer (js ''0.2.27'')))"
    by code_simp
  have o2: "\<not> semverPrecedes (the (parseSemVer (js ''0.2.27''))) (the (parseSemVer (js ''0.2.27'')))"
    by code_simp
  have o3: "\<not> semverPrecedes (the (parseSemVer (js ''0.10.0-rc.1''))) (the (parseSemVer (js ''0.9.0'')))"
    by code_simp
  from status_outdated_iff_older [OF pv key example_install_path acc proc sv1]
  obtain x y older where 1: "parseSemVer (js ''0.2.26'') = Some x" "parseSemVer (js ''0.2.27'') = Some y"
    "getInstallationStatus (examplePlugin ''0.2.27'') (exampleSystem True (Exits 0 (js ''0.2.26'')))
       = Resolved \<lparr> state = (if older then Outdated else Installed),
                    installPath = Some exampleInfo, versionsPlugin = Some (js ''0.2.27''),
                    versionsServer = Some (js ''0.2.26''), error = None \<rparr>"
    "exactIdentifiers x \<and> exactIdentifiers y \<longrightarrow> older = semverPrecedes x y"
    by blast
  from 1(1,2,4) ex(1,2) o1 have older: "older" by simp
  from status_outdated_iff_older [OF pv key example_install_path acc proc sv2]
  obtain x' y' older' where 2: "parseSemVer (js ''0.2.27'') = Some x'" "parseSemVer (js ''0.2.27'') = Some y'"
    "getInstallationStatus (examplePlugin ''0.2.27'')
         (exampleSystem True (Exits 0 (0xFEFF # js ''v0.2.27'' @ [0x000A])))
       = Resolved \<lparr> state = (if older' then Outdated else Installed),
                    installPath = Some exampleInfo, versionsPlugin = Some (js ''0.2.27''),
                    versionsServer = Some (js ''0.2.27''), error = None \<rparr>"
    "exactIdentifiers x' \<and> exactIdentifiers y' \<longrightarrow> older' = semverPrecedes x' y'"
    by blast
  from 2(1,2,4) ex(2) o2 have same: "\<not> older'" by simp
  from status_outdated_iff_older [OF pv9 key example_install_path acc proc sv3]
  obtain x'' y'' older'' where 3: "parseSemVer (js ''0.10.0-rc.1'') = Some x''"
    "parseSemVer (js ''0.9.0'') = Some y''"
    "getInstallationStatus (examplePlugin ''0.9.0'') (exampleSystem True (Exits 0 (js ''0.10.0-rc.1'')))
       = Resolved \<lparr> state = (if older'' then Outdated else Installed),
                    installPath = Some exampleInfo, versionsPlugin = Some (js ''0.9.0''),
                    versionsServer = Some (js ''0.10.0-rc.1''), error = None \<rparr>"
    "exactIdentifiers x'' \<and> exactIdentifiers y'' \<longrightarrow> older'' = semverPrecedes x'' y''"
    by blast
  from 3(1,2,4) ex(3,4) o3 have newer: "\<not> older''" by simp
  show ?thesis unfolding 1(3) 2(3) 3(3) using older same newer by simp
qed

text \<open>
  C3 as stated fails where a numeric prerelease identifier is too large for a double:
  \<open>1.0.0-9007199254740992\<close> precedes \<open>1.0.0-9007199254740993\<close>, but the package compares
  the two identifiers as numbers, both are \<open>2^53\<close> as doubles, and the state is
  \<open>installed\<close>.
\<close>

theorem status_outdated_iff_older_counterexample:
  "semverPrecedes (the (parseSemVer (js ''1.0.0-9007199254740992'')))
                  (the (parseSemVer (js ''1.0.0-9007199254740993'')))
   \<and> getInstallationStatus (examplePlugin ''1.0.0-9007199254740993'')
         (exampleSystem True (Exits 0 (js ''1.0.0-9007199254740992'')))
     = Resolved \<lparr> state = Installed, installPath = Some exampleInfo,
                  versionsPlugin = Some (js ''1.0.0-9007199254740993''),
                  versionsServer = Some (js ''1.0.0-9007199254740992''), error = None \<rparr>"
proof -
  have pv: "valid (clean (manifestVersion (examplePlugin ''1.0.0-9007199254740993'')))
      = Some (js ''1.0.0-9007199254740993'')"
    unfolding examplePlugin_def by (simp, code_simp)
  have key: "truthy (localRestApiKey (examplePlugin ''1.0.0-9007199254740993''))"
    by (simp add: examplePlugin_def truthy_def)
  have sv: "clean (trim (js ''1.0.0-9007199254740992'')) = Some (js ''1.0.0-9007199254740992'')"
    by code_simp
  have lt: "lt (js ''1.0.0-9007199254740992'') (js ''1.0.0-9007199254740993'') = Some False"
    by code_simp
  have p: "semverPrecedes (the (parseSemVer (js ''1.0.0-9007199254740992'')))
                  (the (parseSemVer (js ''1.0.0-9007199254740993'')))"
    by code_simp
  have "getInstallationStatus (examplePlugin ''1.0.0-9007199254740993'')
         (exampleSystem True (Exits 0 (js ''1.0.0-9007199254740992'')))
     = Resolved \<lparr> state = Installed, installPath = Some exampleInfo,
                  versionsPlugin = Some (js ''1.0.0-9007199254740993''),
                  versionsServer = Some (js ''1.0.0-9007199254740992''), error = None \<rparr>"
    using pv key sv lt example_install_path [of "''1.0.0-9007199254740993''" True]
    by (simp add: getInstallationStatus_def exampleSystem_def execAsync_def)
  with p show ?thesis by simp
qed







lemma map_of_objectAssign:
  "map_of (objectAssign target vars) k =
     (case map_of (rev vars) k of Some v \<Rightarrow> Some (JString v) | None \<Rightarrow> map_of target k)"
proof (induction vars arbitrary: target)
  case Nil
  then show ?case by simp
next
  case (Cons p vars)
  show ?case
    by (cases p) (auto simp: Cons map_of_setProp map_of_append split: option.splits)
qed

lemma keys_objectAssign: "fst ` set target \<subseteq> fst ` set (objectAssign target vars)"
proof (induction vars arbitrary: target)
  case Nil
  then show ?case by simp
next
  case (Cons p vars)
  have "fst ` set target \<subseteq> fst ` set (setProp (fst p) (JString (snd p)) target)"
    by (auto simp: keys_setProp)
  also have "\<dots> \<subseteq> fst ` set (objectAssign (setProp (fst p) (JString (snd p)) target) vars)"
    by (rule Cons.IH)
  finally show ?case by simp
qed

lemma key_kept_setProp: "k \<in> fst ` set ps \<Longrightarrow> k \<in> fst ` set (setProp k' v ps)"
  by (simp add: keys_setProp)

lemma key_kept_objectAssign: "k \<in> fst ` set target \<Longrightarrow> k \<in> fst ` set (objectAssign target vars)"
  using keys_objectAssign [of target vars] by blast

lemma api_key_in_env: "''OBSIDIAN_API_KEY'' \<in> fst ` set (entryEnv st apiKey)"
  unfolding entryEnv_def Let_def
  by (auto split: option.splits intro!: key_kept_objectAssign key_kept_setProp)

lemma update_written:
  assumes "mkdirOk fs" and "writeOk fs" and "configShape (configFile fs)"
  obtains ps ms where "configBefore (configFile fs) = JObject ps"
    and "distinct (map fst ps)" and "isJson (JObject ps)"
    and "if truthyValue (getProp ''mcpServers'' ps)
         then getProp ''mcpServers'' ps = JObject ms \<and> isJson (JObject ms) else ms = []"
    and "updateClaudeConfig st serverPath apiKey fs =
          (Resolved (),
           Holds (toJSON (JObject (setProp ''mcpServers''
             (JObject (setProp serverId (serverEntry st serverPath apiKey) ms)) ps))))"
proof (cases "configFile fs")
  case Absent
  show ?thesis
    by (rule that [of "[(''mcpServers'', JObject [])]" "[]"])
       (use assms Absent in
         \<open>simp_all add: configBefore_def updateClaudeConfig_def withEntry_def getProp_def Let_def\<close>)
next
  case (Holds v)
  with assms(3) obtain ps where v: "v = JObject ps" and j: "isJson (JObject ps)"
    and m: "case getProp ''mcpServers'' ps of JObject ms \<Rightarrow> True | v \<Rightarrow> \<not> truthyValue v"
    by (cases v) (auto simp: configShape_def)
  show ?thesis
  proof (cases "getProp ''mcpServers'' ps")
    case (JObject ms)
    show ?thesis
      by (rule that [of ps ms])
         (use assms Holds v j JObject isJson_member [OF j JObject] in
           \<open>simp_all add: configBefore_def updateClaudeConfig_def withEntry_def Let_def\<close>)
  qed (rule that [of ps "[]"];
       use assms Holds v j m in
         \<open>simp_all add: configBefore_def updateClaudeConfig_def withEntry_def Let_def\<close>)+
qed (use assms in \<open>simp_all add: configShape_def\<close>)

lemma roundTrips_setProp:
  assumes "roundTrips (JObject ps)" and "roundTrips v"
  shows "roundTrips (JObject (setProp k v ps))"
proof -
  have "list_all (\<lambda>p. roundTrips (snd p)) (setProp k v ps)"
    using assms by (induction ps) auto
  with assms(1) show ?thesis by (simp add: distinct_setProp)
qed

lemma roundTrips_objectAssign:
  "roundTrips (JObject target) \<Longrightarrow> roundTrips (JObject (objectAssign target vars))"
proof (induction vars arbitrary: target)
  case Nil
  then show ?case by simp
next
  case (Cons p vars)
  have "roundTrips (JObject (setProp (fst p) (JString (snd p)) target))"
    using Cons.prems by (intro roundTrips_setProp) simp_all
  then show ?case using Cons.IH by simp
qed

lemma roundTrips_serverEntry:
  assumes "apiKey \<noteq> None"
  shows "roundTrips (serverEntry st serverPath apiKey)"
proof -
  let ?env0 = "[(''OBSIDIAN_API_KEY'', case apiKey of None \<Rightarrow> Undefined | Some k \<Rightarrow> JString k)]"
  have 0: "roundTrips (JObject ?env0)" using assms by (cases apiKey) auto
  have 1: "roundTrips (JObject (setProp k (JString h) ?env0))" for k h
    using 0 by (intro roundTrips_setProp) simp_all
  have "roundTrips (JObject (entryEnv st apiKey))"
    unfolding entryEnv_def Let_def
    using 0 1
    by (auto split: option.splits intro!: roundTrips_objectAssign
        simp del: roundTrips.simps setProp.simps)
  then show ?thesis by (simp add: serverEntry_def)
qed

text \<open>
  C4, as the code has it. When the directory can be made and the file written, and the
  file is missing or holds a JSON object whose \<open>mcpServers\<close> member is an object (or is
  missing or falsy), the update succeeds and the document read back has under
  \<open>mcpServers[serverId]\<close> the upserted entry as it is serialised (the entry itself when
  an API key was passed), and every other top-level key and every other \<open>mcpServers\<close>
  entry has the value that its parsed value is serialised to: the value it had, unless
  that holds a number that is not finite (read back as \<open>null\<close>) or a negative zero (read
  back as \<open>0\<close>). A missing file starts from \<open>{ mcpServers: {} }\<close>.
\<close>

theorem upsert_round_trip:
  assumes "mkdirOk fs" and "writeOk fs" and "configShape (configFile fs)"
  shows "\<exists>doc. updateClaudeConfig st serverPath apiKey fs = (Resolved (), Holds doc)
     \<and> readBack (Holds doc) = Some doc
     \<and> memberOf serverId (memberOf ''mcpServers'' doc) = toJSON (serverEntry st serverPath apiKey)
     \<and> (apiKey \<noteq> None \<longrightarrow>
          memberOf serverId (memberOf ''mcpServers'' doc) = serverEntry st serverPath apiKey)
     \<and> (\<forall>k. k \<noteq> ''mcpServers'' \<longrightarrow>
          memberOf k doc = toJSON (memberOf k (configBefore (configFile fs))))
     \<and> (\<forall>k. k \<noteq> serverId \<longrightarrow>
          memberOf k (memberOf ''mcpServers'' doc)
            = toJSON (memberOf k (memberOf ''mcpServers'' (configBefore (configFile fs)))))
     \<and> (\<forall>v. roundTrips v \<or> v = Undefined \<longrightarrow> toJSON v = v)
     \<and> (configFile fs = Absent \<longrightarrow>
          configBefore (configFile fs) = JObject [(''mcpServers'', JObject [])])"
proof -
  let ?entry = "serverEntry st serverPath apiKey"
  from update_written [OF assms, of st serverPath apiKey] obtain ps ms where
    before: "configBefore (configFile fs) = JObject ps"
    and dps: "distinct (map fst ps)" and jps: "isJson (JObject ps)"
    and ms: "if truthyValue (getProp ''mcpServers'' ps)
             then getProp ''mcpServers'' ps = JObject ms \<and> isJson (JObject ms) else ms = []"
    and upd: "updateClaudeConfig st serverPath apiKey fs =
          (Resolved (),
           Holds (toJSON (JObject (setProp ''mcpServers''
             (JObject (setProp serverId ?entry ms)) ps))))"
    by blast
  define ms' where "ms' = setProp serverId ?entry ms"
  define doc where "doc = toJSON (JObject (setProp ''mcpServers'' (JObject ms') ps))"
  have jms: "isJson (JObject ms)" using ms by (auto split: if_splits)
  then have dms': "distinct (map fst ms')" by (simp add: ms'_def distinct_setProp)
  have dqs: "distinct (map fst (setProp ''mcpServers'' (JObject ms') ps))"
    using dps by (rule distinct_setProp)
  have top: "memberOf k doc = toJSON (getProp k (setProp ''mcpServers'' (JObject ms') ps))" for k
    unfolding doc_def by (rule memberOf_toJSON [OF dqs])
  have servers: "memberOf ''mcpServers'' doc = toJSON (JObject ms')"
    by (simp add: top getProp_setProp)
  have inner: "memberOf k (memberOf ''mcpServers'' doc) = toJSON (getProp k ms')" for k
    unfolding servers by (rule memberOf_toJSON [OF dms'])
  have 1: "memberOf serverId (memberOf ''mcpServers'' doc) = toJSON ?entry"
    by (simp add: inner ms'_def getProp_setProp)
  have 2: "memberOf serverId (memberOf ''mcpServers'' doc) = ?entry" if "apiKey \<noteq> None"
    using 1 roundTrips_toJSON [OF roundTrips_serverEntry [OF that]] by simp
  have 3: "memberOf k doc = toJSON (memberOf k (configBefore (configFile fs)))"
    if "k \<noteq> ''mcpServers''" for k
  proof -
    have "memberOf k doc = toJSON (getProp k ps)"
      using that by (simp add: top getProp_setProp)
    also have "getProp k ps = memberOf k (configBefore (configFile fs))"
      by (simp add: before memberOf_def)
    finally show ?thesis .
  qed
  have 4: "memberOf k (memberOf ''mcpServers'' doc)
            = toJSON (memberOf k (memberOf ''mcpServers'' (configBefore (configFile fs))))"
    if "k \<noteq> serverId" for k
  proof -
    have "memberOf k (memberOf ''mcpServers'' doc) = toJSON (getProp k ms)"
      using that by (simp add: inner ms'_def getProp_setProp)
    also have "getProp k ms = memberOf k (getProp ''mcpServers'' ps)"
    proof (cases "truthyValue (getProp ''mcpServers'' ps)")
      case True
      with ms show ?thesis by (simp add: memberOf_def)
    next
      case False
      with ms have "ms = []" by simp
      then show ?thesis using memberOf_falsy [OF False, of k] by (simp add: getProp_def)
    qed
    finally show ?thesis by (simp add: before memberOf_def)
  qed
  have 5: "configBefore (configFile fs) = JObject [(''mcpServers'', JObject [])]"
    if "configFile fs = Absent"
    using that by (simp add: configBefore_def)
  have 6: "\<forall>v. roundTrips v \<or> v = Undefined \<longrightarrow> toJSON v = v"
    using roundTrips_toJSON by auto
  have "updateClaudeConfig st serverPath apiKey fs = (Resolved (), Holds doc)"
    using upd by (simp add: doc_def ms'_def)
  moreover have "readBack (Holds doc) = Some doc" by (simp add: readBack_def)
  ultimately show ?thesis using 1 2 3 4 5 6 by blast
qed

theorem upsert_round_trip_witness:
  "configShape (configFile (exampleFs (Holds exampleConfig)))
   \<and> roundTrips (memberOf ''theme'' exampleConfig)
   \<and> roundTrips (memberOf ''other'' (memberOf ''mcpServers'' exampleConfig))
   \<and> (\<exists>doc. updateClaudeConfig (Some exampleSettings) ''/bin/mcp-server'' (Some ''k'')
               (exampleFs (Holds exampleConfig)) = (Resolved (), Holds doc)
        \<and> memberOf serverId (memberOf ''mcpServers'' doc)
            = serverEntry (Some exampleSettings) ''/bin/mcp-server'' (Some ''k'')
        \<and> memberOf ''theme'' doc = JString ''dark''
        \<and> memberOf ''zoom'' doc = JNumber (Finite (3 / 2))
        \<and> memberOf ''other'' (memberOf ''mcpServers'' doc) = JObject [(''command'', JString ''x'')])"
proof -
  have shape: "configShape (configFile (exampleFs (Holds exampleConfig)))"
    by (simp add: configShape_def exampleFs_def exampleConfig_def getProp_def)
  have ok: "mkdirOk (exampleFs f)" "writeOk (exampleFs f)" for f
    by (simp_all add: exampleFs_def)
  have before: "configBefore (configFile (exampleFs (Holds exampleConfig))) = exampleConfig"
    by (simp add: configBefore_def exampleFs_def)
  have t: "memberOf ''theme'' exampleConfig = JString ''dark''"
    by (simp add: memberOf_def getProp_def exampleConfig_def)
  have z: "memberOf ''zoom'' exampleConfig = JNumber (Finite (3 / 2))"
    by (simp add: memberOf_def getProp_def exampleConfig_def)
  have o: "memberOf ''other'' (memberOf ''mcpServers'' exampleConfig) = JObject [(''command'', JString ''x'')]"
    by (simp add: memberOf_def getProp_def exampleConfig_def)
  from upsert_round_trip [OF ok shape, of "Some exampleSettings" "''/bin/mcp-server''" "Some ''k''"]
  obtain doc where d: "updateClaudeConfig (Some exampleSettings) ''/bin/mcp-server'' (Some ''k'')
               (exampleFs (Holds exampleConfig)) = (Resolved (), Holds doc)"
    "memberOf serverId (memberOf ''mcpServers'' doc)
            = serverEntry (Some exampleSettings) ''/bin/mcp-server'' (Some ''k'')"
    "\<forall>k. k \<noteq> ''mcpServers'' \<longrightarrow> memberOf k doc = toJSON (memberOf k exampleConfig)"
    "\<forall>k. k \<noteq> serverId \<longrightarrow> memberOf k (memberOf ''mcpServers'' doc)
            = toJSON (memberOf k (memberOf ''mcpServers'' exampleConfig))"
    unfolding before by blast
  have "memberOf ''theme'' doc = JString ''dark''" using d(3) t by simp
  moreover have "memberOf ''zoom'' doc = JNumber (Finite (3 / 2))" using d(3) z by simp
  moreover have "memberOf ''other'' (memberOf ''mcpServers'' doc) = JObject [(''command'', JString ''x'')]"
    using d(4) o by (simp add: serverId_def)
  moreover have "roundTrips (memberOf ''theme'' exampleConfig)"
    and "roundTrips (memberOf ''other'' (memberOf ''mcpServers'' exampleConfig))"
    by (simp_all add: t o)
  ultimately show ?thesis using shape d(1,2) by blast
qed

text \<open>
  C4 as stated fails in two ways. On a file whose \<open>mcpServers\<close> member is an array the
  update succeeds, the entry is set as a named property of the array, which is not
  written, and the document read back has no \<open>mcpServers[serverId]\<close>. And a key whose
  parsed value is not finite changes: \<open>{"limit": 1e999}\<close> parses to \<open>Infinity\<close> and is read
  back as \<open>null\<close> after the update.
\<close>

theorem upsert_round_trip_counterexample:
  "updateClaudeConfig None ''/bin/mcp-server'' (Some ''k'')
       (exampleFs (Holds (JObject [(''mcpServers'', JArray [])])))
     = (Resolved (), Holds (JObject [(''mcpServers'', JArray [])]))
   \<and> memberOf serverId (memberOf ''mcpServers'' (JObject [(''mcpServers'', JArray [])])) = Undefined
   \<and> serverEntry None ''/bin/mcp-server'' (Some ''k'') \<noteq> Undefined
   \<and> configShape (Holds (JObject [(''limit'', JNumber PositiveInfinity)]))
   \<and> updateClaudeConfig None ''/bin/mcp-server'' (Some ''k'')
       (exampleFs (Holds (JObject [(''limit'', JNumber PositiveInfinity)])))
     = (Resolved (),
        Holds (JObject [(''limit'', JNull),
                        (''mcpServers'',
                         JObject [(''obsidian-mcp-tools'',
                                   JObject [(''command'', JString ''/bin/mcp-server''),
                                            (''env'', JObject [(''OBSIDIAN_API_KEY'', JString ''k'')])])])]))
   \<and> memberOf ''limit'' (JObject [(''limit'', JNumber PositiveInfinity)]) = JNumber PositiveInfinity
   \<and> JNumber PositiveInfinity \<noteq> JNull"
  by (simp add: updateClaudeConfig_def exampleFs_def withEntry_def getProp_def memberOf_def
      serverEntry_def entryCommand_def entryEnv_def serverId_def configShape_def Let_def)

lemma getProp_objectAssign:
  "getProp k (objectAssign target vars) =
     (case map_of (rev vars) k of Some v \<Rightarrow> JString v | None \<Rightarrow> getProp k target)"
  by (simp add: getProp_def map_of_objectAssign split: option.splits)

text \<open>
  C10. The entry assigned under the fixed server id has exactly the members \<open>command\<close>
  and \<open>env\<close>, and \<open>env\<close> has the member \<open>OBSIDIAN_API_KEY\<close> (whose value is \<open>undefined\<close>
  when no key is passed and the settings give none). After a successful update of a
  well-shaped file, whatever entry was there before, the entry read back is made of
  \<open>command\<close> and the serialised \<open>env\<close> only, so an earlier \<open>args\<close> array is gone. The
  command is \<open>customCommand\<close> when that is set and the server path otherwise;
  \<open>customHost\<close> gives \<open>OBSIDIAN_HOST\<close>; each of \<open>customEnvVars\<close> is in \<open>env\<close>, the last
  assignment of a name winning over the defaults.
\<close>

theorem upsert_entry_fields:
  assumes "mkdirOk fs" and "writeOk fs" and "configShape (configFile fs)"
  shows "serverEntry st serverPath apiKey =
           JObject [(''command'', JString (entryCommand st serverPath)),
                    (''env'', JObject (entryEnv st apiKey))]
     \<and> ''OBSIDIAN_API_KEY'' \<in> fst ` set (entryEnv st apiKey)
     \<and> (\<exists>doc. updateClaudeConfig st serverPath apiKey fs = (Resolved (), Holds doc)
          \<and> memberOf serverId (memberOf ''mcpServers'' doc) =
               JObject [(''command'', JString (entryCommand st serverPath)),
                        (''env'', toJSON (JObject (entryEnv st apiKey)))]
          \<and> memberOf ''args'' (memberOf serverId (memberOf ''mcpServers'' doc)) = Undefined)
     \<and> (st = None \<longrightarrow> entryCommand st serverPath = serverPath)
     \<and> (\<forall>s. st = Some s \<longrightarrow>
          entryCommand st serverPath =
            (if truthy (customCommand s) then the (customCommand s) else serverPath))
     \<and> (\<forall>s vars k v. st = Some s \<and> customEnvVars s = Some vars \<and> map_of (rev vars) k = Some v
          \<longrightarrow> getProp k (entryEnv st apiKey) = JString v)
     \<and> (\<forall>s. st = Some s \<and> truthy (customHost s)
            \<and> (\<forall>vars. customEnvVars s = Some vars \<longrightarrow> ''OBSIDIAN_HOST'' \<notin> fst ` set vars)
          \<longrightarrow> getProp ''OBSIDIAN_HOST'' (entryEnv st apiKey) = JString (the (customHost s)))
     \<and> ((\<forall>s vars. st = Some s \<and> customEnvVars s = Some vars
              \<longrightarrow> ''OBSIDIAN_API_KEY'' \<notin> fst ` set vars)
          \<longrightarrow> getProp ''OBSIDIAN_API_KEY'' (entryEnv st apiKey) =
                (case apiKey of None \<Rightarrow> Undefined | Some k \<Rightarrow> JString k))"
proof -
  let ?entry = "serverEntry st serverPath apiKey"
  let ?env0 = "[(''OBSIDIAN_API_KEY'', case apiKey of None \<Rightarrow> Undefined | Some k \<Rightarrow> JString k)]"
  have absent: "map_of (rev vars) k = None" if "k \<notin> fst ` set vars" for vars :: "(string \<times> string) list" and k
    using that by (simp add: map_of_eq_None_iff)
  have 1: "?entry = JObject [(''command'', JString (entryCommand st serverPath)),
                             (''env'', JObject (entryEnv st apiKey))]"
    by (simp add: serverEntry_def)
  have 2: "''OBSIDIAN_API_KEY'' \<in> fst ` set (entryEnv st apiKey)" by (rule api_key_in_env)
  from update_written [OF assms, of st serverPath apiKey] obtain ps ms where
    dps: "distinct (map fst ps)"
    and ms: "if truthyValue (getProp ''mcpServers'' ps)
             then getProp ''mcpServers'' ps = JObject ms \<and> isJson (JObject ms) else ms = []"
    and upd: "updateClaudeConfig st serverPath apiKey fs =
          (Resolved (),
           Holds (toJSON (JObject (setProp ''mcpServers''
             (JObject (setProp serverId ?entry ms)) ps))))"
    by blast
  define doc where "doc = toJSON (JObject (setProp ''mcpServers'' (JObject (setProp serverId ?entry ms)) ps))"
  have dms: "distinct (map fst (setProp serverId ?entry ms))"
    using ms by (auto split: if_splits intro!: distinct_setProp)
  have "memberOf ''mcpServers'' doc = toJSON (JObject (setProp serverId ?entry ms))"
    unfolding doc_def using memberOf_toJSON [OF distinct_setProp [OF dps]]
    by (simp add: getProp_setProp)
  then have "memberOf serverId (memberOf ''mcpServers'' doc) = toJSON ?entry"
    using memberOf_toJSON [OF dms] by (simp add: getProp_setProp)
  then have e: "memberOf serverId (memberOf ''mcpServers'' doc) =
               JObject [(''command'', JString (entryCommand st serverPath)),
                        (''env'', toJSON (JObject (entryEnv st apiKey)))]"
    by (simp add: serverEntry_def)
  have 3: "\<exists>doc. updateClaudeConfig st serverPath apiKey fs = (Resolved (), Holds doc)
          \<and> memberOf serverId (memberOf ''mcpServers'' doc) =
               JObject [(''command'', JString (entryCommand st serverPath)),
                        (''env'', toJSON (JObject (entryEnv st apiKey)))]
          \<and> memberOf ''args'' (memberOf serverId (memberOf ''mcpServers'' doc)) = Undefined"
  proof (intro exI conjI)
    show "updateClaudeConfig st serverPath apiKey fs = (Resolved (), Holds doc)"
      using upd by (simp add: doc_def)
    show "memberOf serverId (memberOf ''mcpServers'' doc) =
               JObject [(''command'', JString (entryCommand st serverPath)),
                        (''env'', toJSON (JObject (entryEnv st apiKey)))]"
      by (rule e)
    show "memberOf ''args'' (memberOf serverId (memberOf ''mcpServers'' doc)) = Undefined"
      unfolding e by (simp add: memberOf_def getProp_def)
  qed
  have 4: "st = None \<longrightarrow> entryCommand st serverPath = serverPath"
    by (simp add: entryCommand_def)
  have 5: "\<forall>s. st = Some s \<longrightarrow> entryCommand st serverPath =
            (if truthy (customCommand s) then the (customCommand s) else serverPath)"
    by (simp add: entryCommand_def)
  have 6: "\<forall>s vars k v. st = Some s \<and> customEnvVars s = Some vars \<and> map_of (rev vars) k = Some v
          \<longrightarrow> getProp k (entryEnv st apiKey) = JString v"
    by (auto simp: entryEnv_def Let_def getProp_objectAssign)
  have 7: "\<forall>s. st = Some s \<and> truthy (customHost s)
            \<and> (\<forall>vars. customEnvVars s = Some vars \<longrightarrow> ''OBSIDIAN_HOST'' \<notin> fst ` set vars)
          \<longrightarrow> getProp ''OBSIDIAN_HOST'' (entryEnv st apiKey) = JString (the (customHost s))"
  proof (intro allI impI, elim conjE)
    fix s
    assume st: "st = Some s" and host: "truthy (customHost s)"
      and free: "\<forall>vars. customEnvVars s = Some vars \<longrightarrow> ''OBSIDIAN_HOST'' \<notin> fst ` set vars"
    let ?env1 = "setProp ''OBSIDIAN_HOST'' (JString (the (customHost s))) ?env0"
    have h: "getProp ''OBSIDIAN_HOST'' ?env1 = JString (the (customHost s))"
      by (simp only: getProp_setProp refl if_True)
    show "getProp ''OBSIDIAN_HOST'' (entryEnv st apiKey) = JString (the (customHost s))"
    proof (cases "customEnvVars s")
      case None
      with st host h show ?thesis by (simp add: entryEnv_def Let_def)
    next
      case (Some vars)
      with free have "map_of (rev vars) ''OBSIDIAN_HOST'' = None" by (simp add: absent)
      then have "getProp ''OBSIDIAN_HOST'' (objectAssign ?env1 vars) = getProp ''OBSIDIAN_HOST'' ?env1"
        by (simp add: getProp_objectAssign)
      with st host h Some show ?thesis by (simp add: entryEnv_def Let_def)
    qed
  qed
  have 8: "(\<forall>s vars. st = Some s \<and> customEnvVars s = Some vars
              \<longrightarrow> ''OBSIDIAN_API_KEY'' \<notin> fst ` set vars)
          \<longrightarrow> getProp ''OBSIDIAN_API_KEY'' (entryEnv st apiKey) =
                (case apiKey of None \<Rightarrow> Undefined | Some k \<Rightarrow> JString k)"
  proof
    assume free: "\<forall>s vars. st = Some s \<and> customEnvVars s = Some vars
              \<longrightarrow> ''OBSIDIAN_API_KEY'' \<notin> fst ` set vars"
    have k0: "getProp ''OBSIDIAN_API_KEY'' ?env0 = (case apiKey of None \<Rightarrow> Undefined | Some k \<Rightarrow> JString k)"
      by (simp add: getProp_def)
    have k1: "getProp ''OBSIDIAN_API_KEY'' (setProp ''OBSIDIAN_HOST'' v ?env0)
                = (case apiKey of None \<Rightarrow> Undefined | Some k \<Rightarrow> JString k)" for v
      by (simp add: getProp_def)
    show "getProp ''OBSIDIAN_API_KEY'' (entryEnv st apiKey) =
                (case apiKey of None \<Rightarrow> Undefined | Some k \<Rightarrow> JString k)"
    proof (cases st)
      case None
      with k0 show ?thesis by (simp add: entryEnv_def Let_def)
    next
      case (Some s)
      show ?thesis
      proof (cases "customEnvVars s")
        case None
        with Some k0 k1 show ?thesis by (simp add: entryEnv_def Let_def)
      next
        case vars: (Some vars)
        with free Some have "map_of (rev vars) ''OBSIDIAN_API_KEY'' = None" by (simp add: absent)
        then have "getProp ''OBSIDIAN_API_KEY'' (objectAssign env vars) = getProp ''OBSIDIAN_API_KEY'' env" for env
          by (simp add: getProp_objectAssign)
        with Some vars k0 k1 show ?thesis by (simp add: entryEnv_def Let_def)
      qed
    qed
  qed
  show ?thesis using 1 2 3 4 5 6 7 8 by blast
qed

theorem upsert_entry_fields_witness:
  "configShape (configFile (exampleFs (Holds exampleConfig)))
   \<and> memberOf ''args'' (memberOf serverId (memberOf ''mcpServers'' exampleConfig))
       = JArray [JString ''--old'']
   \<and> (\<exists>doc. updateClaudeConfig (Some exampleSettings) ''/bin/mcp-server'' None
               (exampleFs (Holds exampleConfig)) = (Resolved (), Holds doc)
        \<and> memberOf serverId (memberOf ''mcpServers'' doc) =
             JObject [(''command'', JString ''wsl.exe''),
                      (''env'', JObject [(''OBSIDIAN_HOST'', JString ''127.0.0.1''),
                                         (''A'', JString ''1'')])]
        \<and> memberOf ''args'' (memberOf serverId (memberOf ''mcpServers'' doc)) = Undefined)
   \<and> entryEnv (Some exampleSettings) None =
        [(''OBSIDIAN_API_KEY'', Undefined), (''OBSIDIAN_HOST'', JString ''127.0.0.1''),
         (''A'', JString ''1'')]"
proof -
  have shape: "configShape (configFile (exampleFs (Holds exampleConfig)))"
    by (simp add: configShape_def exampleFs_def exampleConfig_def getProp_def)
  have ok: "mkdirOk (exampleFs f)" "writeOk (exampleFs f)" for f
    by (simp_all add: exampleFs_def)
  have old: "memberOf ''args'' (memberOf serverId (memberOf ''mcpServers'' exampleConfig))
       = JArray [JString ''--old'']"
    by (simp add: memberOf_def getProp_def exampleConfig_def serverId_def)
  have env: "entryEnv (Some exampleSettings) None =
        [(''OBSIDIAN_API_KEY'', Undefined), (''OBSIDIAN_HOST'', JString ''127.0.0.1''),
         (''A'', JString ''1'')]"
    by (simp add: entryEnv_def exampleSettings_def truthy_def Let_def)
  have cmd: "entryCommand (Some exampleSettings) ''/bin/mcp-server'' = ''wsl.exe''"
    by (simp add: entryCommand_def exampleSettings_def truthy_def)
  from upsert_entry_fields [OF ok shape, of "Some exampleSettings" "''/bin/mcp-server''" None]
  obtain doc where "updateClaudeConfig (Some exampleSettings) ''/bin/mcp-server'' None
               (exampleFs (Holds exampleConfig)) = (Resolved (), Holds doc)"
    "memberOf serverId (memberOf ''mcpServers'' doc) =
       JObject [(''command'', JString (entryCommand (Some exampleSettings) ''/bin/mcp-server'')),
                (''env'', toJSON (JObject (entryEnv (Some exampleSettings) None)))]"
    "memberOf ''args'' (memberOf serverId (memberOf ''mcpServers'' doc)) = Undefined"
    by blast
  then have "\<exists>doc. updateClaudeConfig (Some exampleSettings) ''/bin/mcp-server'' None
               (exampleFs (Holds exampleConfig)) = (Resolved (), Holds doc)
        \<and> memberOf serverId (memberOf ''mcpServers'' doc) =
             JObject [(''command'', JString ''wsl.exe''),
                      (''env'', JObject [(''OBSIDIAN_HOST'', JString ''127.0.0.1''),
                                         (''A'', JString ''1'')])]
        \<and> memberOf ''args'' (memberOf serverId (memberOf ''mcpServers'' doc)) = Undefined"
    by (auto simp: env cmd)
  with shape old env show ?thesis by blast
qed

lemma downloadFile_too_many:
  "redirects > 5 \<Longrightarrow> downloadFile net url redirects st = emit (Error TooManyRedirects) st"
  by (subst downloadFile.simps) simp

lemma downloadFile_redirect:
  assumes "redirects \<le> 5" and "get net url = Responds r"
    and "statusCode r = Some 301 \<or> statusCode r = Some 302"
  shows "downloadFile net url redirects st =
           (if truthy (location r)
            then downloadFile net (the (location r)) (redirects + 1)
                   (st\<lparr> requests := requests st @ [url] \<rparr>)
            else failWith net (RedirectWithoutLocation (the (statusCode r)))
                   (st\<lparr> requests := requests st @ [url] \<rparr>))"
  using assms by (subst downloadFile.simps) (auto simp: Let_def)

lemma redirectsTo_step:
  assumes "redirectsTo net url target" and "redirects \<le> 5"
  shows "downloadFile net url redirects st =
           downloadFile net target (redirects + 1) (st\<lparr> requests := requests st @ [url] \<rparr>)"
proof -
  from assms(1) obtain r where r: "get net url = Responds r"
    "statusCode r = Some 301 \<or> statusCode r = Some 302" "location r = Some target" "target \<noteq> []"
    by (auto simp: redirectsTo_def split: reply.splits)
  show ?thesis
    using downloadFile_redirect [OF assms(2) r(1,2), of st] r(3,4) by (simp add: truthy_def)
qed

lemma redirect_chain_from:
  assumes "\<forall>i<6. redirectsTo net (u i) (u (i + 1))" and "k \<le> 6"
  shows "downloadFile net (u k) k st =
           emit (Error TooManyRedirects) (st\<lparr> requests := requests st @ map u [k..<6] \<rparr>)"
  using assms(2)
proof (induction "6 - k" arbitrary: k st)
  case 0
  then have "k = 6" by simp
  then show ?case by (simp add: downloadFile_too_many)
next
  case (Suc d)
  then have k: "k < 6" by simp
  then have "downloadFile net (u k) k st =
        downloadFile net (u (k + 1)) (k + 1) (st\<lparr> requests := requests st @ [u k] \<rparr>)"
    using assms(1) by (intro redirectsTo_step) auto
  also have "\<dots> = emit (Error TooManyRedirects)
        (st\<lparr> requests := requests st @ [u k] \<rparr>
           \<lparr> requests := requests (st\<lparr> requests := requests st @ [u k] \<rparr>) @ map u [k + 1..<6] \<rparr>)"
    using Suc.hyps(1) [of "k + 1"] Suc.hyps(2) k by simp
  also have "\<dots> = emit (Error TooManyRedirects) (st\<lparr> requests := requests st @ map u [k..<6] \<rparr>)"
    using k by (simp add: upt_conv_Cons)
  finally show ?case .
qed

text \<open>
  C5. A 301 or 302 response with a (non-empty) Location header makes the download
  continue as the download of that URL with the redirect count one higher, after the one
  request to the first URL; without the header the subscriber gets the error and nothing
  more is requested. A download entered with a redirect count above 5 fails with
  \<open>Too many redirects\<close> without a request, so on a chain of six redirects the six URLs
  that redirect are requested and the target of the sixth redirect is not.
\<close>

theorem redirects_followed_up_to_five:
  "(redirects \<le> 5 \<and> get net url = Responds r
      \<and> (statusCode r = Some 301 \<or> statusCode r = Some 302) \<and> truthy (location r)
     \<longrightarrow> downloadFile net url redirects st =
           downloadFile net (the (location r)) (redirects + 1)
             (st\<lparr> requests := requests st @ [url] \<rparr>))
   \<and> (redirects \<le> 5 \<and> get net url = Responds r
      \<and> (statusCode r = Some 301 \<or> statusCode r = Some 302) \<and> \<not> truthy (location r)
      \<and> \<not> closed st
     \<longrightarrow> notifications (downloadFile net url redirects st) =
           notifications st @ [Error (RedirectWithoutLocation (the (statusCode r)))]
         \<and> closed (downloadFile net url redirects st)
         \<and> requests (downloadFile net url redirects st) = requests st @ [url])
   \<and> (redirects > 5
     \<longrightarrow> downloadFile net url redirects st = emit (Error TooManyRedirects) st)
   \<and> ((\<forall>i<6. redirectsTo net (u i) (u (i + 1))) \<and> \<not> closed st
     \<longrightarrow> notifications (downloadFile net (u 0) 0 st) = notifications st @ [Error TooManyRedirects]
         \<and> closed (downloadFile net (u 0) 0 st)
         \<and> requests (downloadFile net (u 0) 0 st) = requests st @ map u [0..<6])"
proof (intro conjI impI)
  assume "redirects \<le> 5 \<and> get net url = Responds r
      \<and> (statusCode r = Some 301 \<or> statusCode r = Some 302) \<and> truthy (location r)"
  then show "downloadFile net url redirects st =
           downloadFile net (the (location r)) (redirects + 1)
             (st\<lparr> requests := requests st @ [url] \<rparr>)"
    using downloadFile_redirect [of redirects net url r st] by simp
next
  assume a: "redirects \<le> 5 \<and> get net url = Responds r
      \<and> (statusCode r = Some 301 \<or> statusCode r = Some 302) \<and> \<not> truthy (location r)
      \<and> \<not> closed st"
  then have eq: "downloadFile net url redirects st =
      failWith net (RedirectWithoutLocation (the (statusCode r)))
        (st\<lparr> requests := requests st @ [url] \<rparr>)"
    using downloadFile_redirect [of redirects net url r st] by simp
  show "notifications (downloadFile net url redirects st) =
           notifications st @ [Error (RedirectWithoutLocation (the (statusCode r)))]"
    and "closed (downloadFile net url redirects st)"
    and "requests (downloadFile net url redirects st) = requests st @ [url]"
    using a unfolding eq by (simp_all add: failWith_def emit_def cleanup_def)
next
  assume "5 < redirects"
  then show "downloadFile net url redirects st = emit (Error TooManyRedirects) st"
    by (rule downloadFile_too_many)
next
  assume a: "(\<forall>i<6. redirectsTo net (u i) (u (i + 1))) \<and> \<not> closed st"
  then have eq: "downloadFile net (u 0) 0 st =
      emit (Error TooManyRedirects) (st\<lparr> requests := requests st @ map u [0..<6] \<rparr>)"
    using redirect_chain_from [of net u 0 st] by simp
  show "notifications (downloadFile net (u 0) 0 st) = notifications st @ [Error TooManyRedirects]"
    and "closed (downloadFile net (u 0) 0 st)"
    and "requests (downloadFile net (u 0) 0 st) = requests st @ map u [0..<6]"
    using a unfolding eq by (simp_all add: emit_def)
qed

theorem redirects_followed_up_to_five_witness:
  "list_all (\<lambda>i. redirectsTo loopingNetwork (''u'' @ replicate i (CHR ''r''))
                   (''u'' @ replicate (i + 1) (CHR ''r''))) [0..<6]
   \<and> \<not> closed (subscribed None)
   \<and> notifications (downloadFile loopingNetwork ''u'' 0 (subscribed None)) = [Error TooManyRedirects]
   \<and> requests (downloadFile loopingNetwork ''u'' 0 (subscribed None))
       = [''u'', ''ur'', ''urr'', ''urrr'', ''urrrr'', ''urrrrr'']
   \<and> downloadFile loopingNetwork ''urrrrrr'' 6 (subscribed None)
       = emit (Error TooManyRedirects) (subscribed None)
   \<and> downloadFile loopingNetwork ''u'' 5 (subscribed None)
       = downloadFile loopingNetwork ''ur'' 6 ((subscribed None)\<lparr> requests := [''u''] \<rparr>)"
proof -
  have chain: "\<forall>i<6. redirectsTo loopingNetwork (''u'' @ replicate i (CHR ''r''))
             (''u'' @ replicate (i + 1) (CHR ''r''))"
    by (simp add: redirectsTo_def loopingNetwork_def replicate_append_same)
  have live: "\<not> closed (subscribed None)" by (simp add: subscribed_def)
  have six: "map (\<lambda>i. ''u'' @ replicate i (CHR ''r'')) [0..<6]
       = [''u'', ''ur'', ''urr'', ''urrr'', ''urrrr'', ''urrrrr'']"
    by (simp add: upt_conv_Cons numeral_eq_Suc)
  have r: "get loopingNetwork ''u'' = Responds \<lparr> statusCode = Some 302, statusMessage = ''Found'',
             location = Some ''ur'', contentLength = None, body = [] \<rparr>"
    by (simp add: loopingNetwork_def)
  note inst = redirects_followed_up_to_five
    [of _ loopingNetwork _ _ "subscribed None" "\<lambda>i. ''u'' @ replicate i (CHR ''r'')"]
  have a: "notifications (downloadFile loopingNetwork ''u'' 0 (subscribed None)) = [Error TooManyRedirects]"
    and b: "requests (downloadFile loopingNetwork ''u'' 0 (subscribed None))
       = [''u'', ''ur'', ''urr'', ''urrr'', ''urrrr'', ''urrrrr'']"
    using inst [of 0 "''u''" "undefined"] chain live six by (simp_all add: subscribed_def)
  have c: "downloadFile loopingNetwork ''urrrrrr'' 6 (subscribed None)
       = emit (Error TooManyRedirects) (subscribed None)"
    using inst [of 6 "''urrrrrr''" "undefined"] by simp
  have d: "downloadFile loopingNetwork ''u'' 5 (subscribed None)
       = downloadFile loopingNetwork ''ur'' 6 ((subscribed None)\<lparr> requests := [''u''] \<rparr>)"
    using inst [of 5 "''u''" "\<lparr> statusCode = Some 302, statusMessage = ''Found'',
             location = Some ''ur'', contentLength = None, body = [] \<rparr>"] r
    by (simp add: truthy_def subscribed_def)
  have chain': "list_all (\<lambda>i. redirectsTo loopingNetwork (''u'' @ replicate i (CHR ''r''))
                   (''u'' @ replicate (i + 1) (CHR ''r''))) [0..<6]"
    using chain by (simp add: list_all_iff)
  show ?thesis using chain' live a b c d by blast
qed

lemma runEvents_append:
  "runEvents net t (a @ b) s = runEvents net t b (runEvents net t a s)"
  by (simp add: runEvents_def)

lemma runEvents_Cons:
  "runEvents net t (ev # evs) s = runEvents net t evs (handleEvent net t ev s)"
  by (simp add: runEvents_def)

lemma runEvents_Nil: "runEvents net t [] s = s"
  by (simp add: runEvents_def)

lemma runEvents_snoc:
  "runEvents net t (evs @ [ev]) s = handleEvent net t ev (runEvents net t evs s)"
  by (simp add: runEvents_def)

lemma bytesOf_append: "bytesOf (a @ b) = bytesOf a @ bytesOf b"
  by (induction a rule: bytesOf.induct) simp_all

text \<open>
  While the transfer goes well the stream stays live, the subscriber gets one progress
  event for each chunk, and the file, once it is opened, holds the first \<open>k\<close> of the
  bytes received while the stream holds the rest.
\<close>

lemma progress_run:
  assumes "list_all isProgress pre" and "streamOpen st" and "\<not> closed st"
    and "\<not> fileOpened st" and "buffered st = []"
  shows "\<exists>d' st' ps k. runEvents net t pre (d, st) = (d', st')
           \<and> streamOpen st' \<and> \<not> closed st'
           \<and> fileOpened st' = (Opened \<in> set pre)
           \<and> k \<le> length (bytesOf pre) \<and> (Opened \<notin> set pre \<longrightarrow> k = 0)
           \<and> buffered st' = drop k (bytesOf pre)
           \<and> destination st' =
                (if Opened \<in> set pre then Some (take k (bytesOf pre)) else destination st)
           \<and> notifications st' = notifications st @ map Next ps
           \<and> length ps = length (filter isGoodChunk pre)
           \<and> unlinkCalls st' = unlinkCalls st \<and> requests st' = requests st"
  using assms(1)
proof (induction pre rule: rev_induct)
  case Nil
  show ?case
    using assms(2-5)
    by (intro exI [of _ d] exI [of _ st] exI [of _ "[]"] exI [of _ 0]) (simp add: runEvents_Nil)
next
  case (snoc ev pre)
  then have pre: "list_all isProgress pre" and ev: "isProgress ev" by simp_all
  from snoc.IH [OF pre] obtain d1 st1 ps k where
    run: "runEvents net t pre (d, st) = (d1, st1)"
    and live: "streamOpen st1" "\<not> closed st1"
    and opened: "fileOpened st1 = (Opened \<in> set pre)"
    and k: "k \<le> length (bytesOf pre)" "Opened \<notin> set pre \<longrightarrow> k = 0"
    and buf: "buffered st1 = drop k (bytesOf pre)"
    and dest: "destination st1 =
                (if Opened \<in> set pre then Some (take k (bytesOf pre)) else destination st)"
    and ntf: "notifications st1 = notifications st @ map Next ps"
      "length ps = length (filter isGoodChunk pre)"
    and same: "unlinkCalls st1 = unlinkCalls st" "requests st1 = requests st"
    by blast
  have step: "runEvents net t (pre @ [ev]) (d, st) = handleEvent net t ev (d1, st1)"
    by (simp add: runEvents_snoc run)
  from ev show ?case
  proof (cases ev rule: isProgress.cases)
    case 1
    define st2 where
      "st2 = (if fileOpened st1 then st1 else st1\<lparr> fileOpened := True, destination := Some [] \<rparr>)"
    define k' where "k' = (if fileOpened st1 then k else 0)"
    have h: "handleEvent net t ev (d1, st1) = (d1, st2)"
      using live by (simp add: handleEvent_def 1 st2_def)
    have b: "bytesOf (pre @ [ev]) = bytesOf pre" by (simp add: bytesOf_append 1)
    have f: "filter isGoodChunk (pre @ [ev]) = filter isGoodChunk pre" by (simp add: 1)
    show ?thesis
      unfolding step h b f
      using live opened k buf dest ntf same
      by (intro exI [of _ d1] exI [of _ st2] exI [of _ ps] exI [of _ k'])
         (auto simp: st2_def k'_def 1)
  next
    case (2 bytes)
    define p where "p = \<lparr> bytesReceived = d1 + length bytes, totalBytes = t \<rparr>"
    define st2 where "st2 = (emit (Next p) st1)\<lparr> buffered := buffered st1 @ bytes \<rparr>"
    have h: "handleEvent net t ev (d1, st1) = (d1 + length bytes, st2)"
      using live by (simp add: handleEvent_def 2 Let_def emit_def st2_def p_def)
    have b: "bytesOf (pre @ [ev]) = bytesOf pre @ bytes" by (simp add: bytesOf_append 2)
    have f: "filter isGoodChunk (pre @ [ev]) = filter isGoodChunk pre @ [ev]" by (simp add: 2)
    have s: "Opened \<in> set (pre @ [ev]) = (Opened \<in> set pre)" by (simp add: 2)
    show ?thesis
      unfolding step h b f s
      using live opened k buf dest ntf same
      by (intro exI [of _ "d1 + length bytes"] exI [of _ st2] exI [of _ "ps @ [p]"] exI [of _ k])
         (simp add: st2_def emit_def)
  next
    case (3 n)
    define st2 where "st2 = writeOut n st1"
    define k' where "k' = (if fileOpened st1 then min (k + n) (length (bytesOf pre)) else k)"
    have h: "handleEvent net t ev (d1, st1) = (d1, st2)"
      by (simp add: handleEvent_def 3 st2_def)
    have b: "bytesOf (pre @ [ev]) = bytesOf pre" by (simp add: bytesOf_append 3)
    have f: "filter isGoodChunk (pre @ [ev]) = filter isGoodChunk pre" by (simp add: 3)
    have s: "Opened \<in> set (pre @ [ev]) = (Opened \<in> set pre)" by (simp add: 3)
    have tk: "take k (bytesOf pre) @ take n (drop k (bytesOf pre))
                = take (min (k + n) (length (bytesOf pre))) (bytesOf pre)"
      by (simp add: take_add min_def)
    have dk: "drop n (drop k (bytesOf pre)) = drop (min (k + n) (length (bytesOf pre))) (bytesOf pre)"
      by (simp add: min_def add.commute)
    show ?thesis
    proof (cases "fileOpened st1")
      case True
      then have o: "Opened \<in> set pre" using opened by simp
      have st2: "st2 = st1\<lparr> destination := Some (take k' (bytesOf pre)),
                             buffered := drop k' (bytesOf pre) \<rparr>"
        using True live dest buf o tk dk by (simp add: st2_def writeOut_def k'_def)
      show ?thesis
        unfolding step h b f s
        using live opened o ntf same True
        by (intro exI [of _ d1] exI [of _ st2] exI [of _ ps] exI [of _ k'])
           (simp add: st2 k'_def)
    next
      case False
      then have st2: "st2 = st1" by (simp add: st2_def writeOut_def)
      show ?thesis
        unfolding step h b f s st2
        using live opened k buf dest ntf same
        by (intro exI [of _ d1] exI [of _ st1] exI [of _ ps] exI [of _ k]) simp
    qed
  qed simp_all
qed

lemma failure_step:
  assumes "isStreamFailure ev" and "\<not> closed st"
  shows "\<exists>e st'. handleEvent net t ev (d, st) = (d, st')
           \<and> closed st' \<and> \<not> streamOpen st'
           \<and> notifications st' = notifications st @ [Error e]
           \<and> destination st' = (if unlinkOk net then None else destination st)
           \<and> unlinkCalls st' = unlinkCalls st + 1 \<and> requests st' = requests st
           \<and> fileOpened st' = fileOpened st"
  using assms
  by (cases ev rule: isStreamFailure.cases)
     (simp_all add: handleEvent_def failWith_def emit_def cleanup_def)

lemma dead_step:
  assumes "closed st" and "\<not> streamOpen st" and "fileOpened st \<or> ev \<noteq> Opened"
  shows "\<exists>d' st'. handleEvent net t ev (d, st) = (d', st')
           \<and> closed st' \<and> \<not> streamOpen st' \<and> notifications st' = notifications st
           \<and> (destination st' = destination st \<or> (unlinkOk net \<and> destination st' = None))
           \<and> (\<not> unlinkOk net \<longrightarrow> destination st' = destination st)
           \<and> unlinkCalls st \<le> unlinkCalls st' \<and> requests st' = requests st
           \<and> fileOpened st' = fileOpened st"
proof (cases ev)
  case (Data c)
  with assms show ?thesis
    by (cases c) (simp_all add: handleEvent_def failWith_def emit_def cleanup_def Let_def)
qed (use assms in \<open>simp_all add: handleEvent_def failWith_def emit_def cleanup_def writeOut_def\<close>)

lemma dead_run:
  assumes "closed st" and "\<not> streamOpen st" and "fileOpened st \<or> Opened \<notin> set evs"
  shows "\<exists>d' st'. runEvents net t evs (d, st) = (d', st')
           \<and> closed st' \<and> \<not> streamOpen st' \<and> notifications st' = notifications st
           \<and> (destination st' = destination st \<or> (unlinkOk net \<and> destination st' = None))
           \<and> (\<not> unlinkOk net \<longrightarrow> destination st' = destination st)
           \<and> unlinkCalls st \<le> unlinkCalls st' \<and> requests st' = requests st"
  using assms
proof (induction evs arbitrary: d st)
  case Nil
  then show ?case by (simp add: runEvents_Nil)
next
  case (Cons ev evs)
  have o: "fileOpened st \<or> ev \<noteq> Opened" using Cons.prems(3) by auto
  from dead_step [OF Cons.prems(1,2) o, of net t d] obtain d1 st1 where
    s: "handleEvent net t ev (d, st) = (d1, st1)" "closed st1" "\<not> streamOpen st1"
      "notifications st1 = notifications st"
      "destination st1 = destination st \<or> (unlinkOk net \<and> destination st1 = None)"
      "\<not> unlinkOk net \<longrightarrow> destination st1 = destination st"
      "unlinkCalls st \<le> unlinkCalls st1" "requests st1 = requests st"
      "fileOpened st1 = fileOpened st"
    by blast
  have o1: "fileOpened st1 \<or> Opened \<notin> set evs" using Cons.prems(3) s(9) by auto
  from Cons.IH [OF s(2,3) o1, of d1] obtain d' st' where
    r: "runEvents net t evs (d1, st1) = (d', st')" "closed st'" "\<not> streamOpen st'"
      "notifications st' = notifications st1"
      "destination st' = destination st1 \<or> (unlinkOk net \<and> destination st' = None)"
      "\<not> unlinkOk net \<longrightarrow> destination st' = destination st1"
      "unlinkCalls st1 \<le> unlinkCalls st'" "requests st' = requests st1"
    by blast
  show ?case
    using s r by (intro exI [of _ d'] exI [of _ st']) (auto simp: runEvents_Cons)
qed

lemma downloadFile_streams:
  assumes "redirects \<le> 5" and "get net url = Responds r" and "statusCode r = Some 200"
    and "\<not> truthy (contentLength r) \<or> parseInt10 (the (contentLength r)) \<noteq> NaN"
    and "createThrows net = None"
  shows "\<exists>t. downloadFile net url redirects st =
           snd (runEvents net t (body r)
                 (0, st\<lparr> requests := requests st @ [url], streamOpen := True,
                          fileOpened := False, buffered := [] \<rparr>))"
  using assms by (subst downloadFile.simps) (auto simp: Let_def)

text \<open>
  When the file system opens the file of a stream only after the stream was destroyed
  and the destination unlinked, the empty file it creates stays: nothing unlinks it.
\<close>

lemma late_open_leaves_file:
  "destination (downloadFile (servingNetwork True [ResponseError ''reset'', Opened])
       ''https://host/mcp-server-linux'' 0 (subscribed None)) = Some []"
proof -
  have five: "parseInt10 ''5'' = Finite 5" by code_simp
  show ?thesis
    by (subst downloadFile.simps, subst downloadFile.simps)
       (simp add: servingNetwork_def subscribed_def truthy_def five Let_def runEvents_def
          handleEvent_def emit_def failWith_def cleanup_def)
qed

text \<open>
  C1, as the code has it. When the response is 200 and the stream fails after the
  transfer has gone well for a while (an error of the write stream, of the response or of
  the request, or a chunk that is not a \<open>Buffer\<close>), the write stream is destroyed,
  \<open>unlink\<close> is called on the destination, and the subscriber receives the progress events
  and then the error and nothing after it. Where the file of the stream is not opened
  only after the failure: when \<open>unlink\<close> succeeds there is no file at the destination in
  the end, whatever else follows; when it fails (the failure is logged only) the
  destination stays as the failure found it, with the first so many of the bytes received
  when the file of the stream had been opened, and as it was before the download when it
  had not.
\<close>

theorem stream_failure_cleans_up:
  assumes "redirects \<le> 5" and "get net url = Responds r" and "statusCode r = Some 200"
    and "\<not> truthy (contentLength r) \<or> parseInt10 (the (contentLength r)) \<noteq> NaN"
    and "createThrows net = None"
    and "body r = pre @ ev # rest" and "list_all isProgress pre" and "isStreamFailure ev"
    and "Opened \<in> set pre \<or> Opened \<notin> set rest"
    and "\<not> closed st"
  shows "\<exists>e ps k. notifications (downloadFile net url redirects st)
                  = notifications st @ map Next ps @ [Error e]
           \<and> length ps = length (filter isGoodChunk pre)
           \<and> closed (downloadFile net url redirects st)
           \<and> \<not> streamOpen (downloadFile net url redirects st)
           \<and> unlinkCalls st < unlinkCalls (downloadFile net url redirects st)
           \<and> destination (downloadFile net url redirects st)
               = (if unlinkOk net then None
                  else if Opened \<in> set pre then Some (take k (bytesOf pre))
                  else destination st)"
proof -
  define st0 where "st0 = st\<lparr> requests := requests st @ [url], streamOpen := True,
                              fileOpened := False, buffered := [] \<rparr>"
  from downloadFile_streams [OF assms(1-5), of st] obtain t where
    dl: "downloadFile net url redirects st = snd (runEvents net t (body r) (0, st0))"
    unfolding st0_def by blast
  have st0: "streamOpen st0" "\<not> closed st0" "\<not> fileOpened st0" "buffered st0 = []"
    "notifications st0 = notifications st" "unlinkCalls st0 = unlinkCalls st"
    "destination st0 = destination st"
    using assms(10) by (simp_all add: st0_def)
  from progress_run [OF assms(7) st0(1-4), of net t 0] obtain d1 st1 ps k where
    1: "runEvents net t pre (0, st0) = (d1, st1)" "streamOpen st1" "\<not> closed st1"
       "destination st1 =
          (if Opened \<in> set pre then Some (take k (bytesOf pre)) else destination st0)"
       "notifications st1 = notifications st0 @ map Next ps"
       "length ps = length (filter isGoodChunk pre)"
       "unlinkCalls st1 = unlinkCalls st0"
       "fileOpened st1 = (Opened \<in> set pre)"
    by blast
  from failure_step [OF assms(8) 1(3), of net t d1] obtain e st2 where
    2: "handleEvent net t ev (d1, st1) = (d1, st2)" "closed st2" "\<not> streamOpen st2"
       "notifications st2 = notifications st1 @ [Error e]"
       "destination st2 = (if unlinkOk net then None else destination st1)"
       "unlinkCalls st2 = unlinkCalls st1 + 1"
       "fileOpened st2 = fileOpened st1"
    by blast
  have late: "fileOpened st2 \<or> Opened \<notin> set rest" using assms(9) 1(8) 2(7) by simp
  from dead_run [OF 2(2,3) late, of net t d1] obtain d3 st3 where
    3: "runEvents net t rest (d1, st2) = (d3, st3)" "closed st3" "\<not> streamOpen st3"
       "notifications st3 = notifications st2"
       "destination st3 = destination st2 \<or> (unlinkOk net \<and> destination st3 = None)"
       "\<not> unlinkOk net \<longrightarrow> destination st3 = destination st2"
       "unlinkCalls st2 \<le> unlinkCalls st3"
    by blast
  have final: "downloadFile net url redirects st = st3"
    by (simp add: dl assms(6) runEvents_append runEvents_Cons 1(1) 2(1) 3(1))
  have dest: "destination st3 =
      (if unlinkOk net then None
       else if Opened \<in> set pre then Some (take k (bytesOf pre)) else destination st)"
    using 3(5,6) 2(5) 1(4) st0(7) by auto
  show ?thesis
    unfolding final
    using 1(5,6,7) 2(4,6) 3(2,3,4,7) st0(5,6) dest
    by (intro exI [of _ e] exI [of _ ps] exI [of _ k]) simp
qed

theorem stream_failure_cleans_up_witness:
  "list_all isProgress [Opened, Data (Buffer [1, 2, 3]), Written 2]
   \<and> isStreamFailure (ResponseError ''reset'')
   \<and> destination (downloadFile
        (servingNetwork True
           [Opened, Data (Buffer [1, 2, 3]), Written 2, ResponseError ''reset'', Data (Buffer [4, 5])])
        ''https://host/mcp-server-linux'' 0 (subscribed (Some [9, 9]))) = None
   \<and> (\<exists>e p. notifications (downloadFile
        (servingNetwork True
           [Opened, Data (Buffer [1, 2, 3]), Written 2, ResponseError ''reset'', Data (Buffer [4, 5])])
        ''https://host/mcp-server-linux'' 0 (subscribed (Some [9, 9]))) = [Next p, Error e])
   \<and> list_all isProgress [Data (Buffer [1, 2, 3])]
   \<and> isStreamFailure (FileError ''EACCES'')
   \<and> destination (downloadFile
        (servingNetwork False [Data (Buffer [1, 2, 3]), FileError ''EACCES''])
        ''https://host/mcp-server-linux'' 0 (subscribed None)) = None"
proof -
  let ?evs = "[Opened, Data (Buffer [1, 2, 3]), Written 2, ResponseError ''reset'', Data (Buffer [4, 5])]"
  let ?net = "servingNetwork True ?evs"
  let ?r = "\<lparr> statusCode = Some 200, statusMessage = ''OK'', location = None,
              contentLength = Some ''5'', body = ?evs \<rparr>"
  let ?evs' = "[Data (Buffer [1, 2, 3]), FileError ''EACCES'']"
  let ?net' = "servingNetwork False ?evs'"
  let ?r' = "\<lparr> statusCode = Some 200, statusMessage = ''OK'', location = None,
              contentLength = Some ''5'', body = ?evs' \<rparr>"
  have five: "parseInt10 ''5'' = Finite 5" by code_simp
  have g: "get ?net ''https://host/mcp-server-linux'' = Responds ?r"
    and g': "get ?net' ''https://host/mcp-server-linux'' = Responds ?r'"
    by (simp_all add: servingNetwork_def)
  have cl: "\<not> truthy (contentLength ?r) \<or> parseInt10 (the (contentLength ?r)) \<noteq> NaN"
    and cl': "\<not> truthy (contentLength ?r') \<or> parseInt10 (the (contentLength ?r')) \<noteq> NaN"
    by (simp_all add: five)
  have ct: "createThrows ?net = None" and ct': "createThrows ?net' = None"
    by (simp_all add: servingNetwork_def)
  have b: "body ?r = [Opened, Data (Buffer [1, 2, 3]), Written 2] @ ResponseError ''reset''
             # [Data (Buffer [4, 5])]"
    and b': "body ?r' = [Data (Buffer [1, 2, 3])] @ FileError ''EACCES'' # []"
    by simp_all
  have good: "list_all isProgress [Opened, Data (Buffer [1, 2, 3]), Written 2]"
    and good': "list_all isProgress [Data (Buffer [1, 2, 3])]" by simp_all
  have bad: "isStreamFailure (ResponseError ''reset'')"
    and bad': "isStreamFailure (FileError ''EACCES'')" by simp_all
  have live: "\<not> closed (subscribed old)" for old by (simp add: subscribed_def)
  have early: "Opened \<in> set [Opened, Data (Buffer [1, 2, 3]), Written 2]
      \<or> Opened \<notin> set [Data (Buffer [4, 5])]"
    and early': "Opened \<in> set [Data (Buffer [1, 2, 3])] \<or> Opened \<notin> set []" by simp_all
  from stream_failure_cleans_up [OF _ g _ cl ct b good bad early live [of "Some [9, 9]"], of 0]
  obtain e ps k where
    n: "notifications (downloadFile ?net ''https://host/mcp-server-linux'' 0 (subscribed (Some [9, 9])))
          = notifications (subscribed (Some [9, 9])) @ map Next ps @ [Error e]"
    and l: "length ps = length (filter isGoodChunk [Opened, Data (Buffer [1, 2, 3]), Written 2])"
    and d: "destination (downloadFile ?net ''https://host/mcp-server-linux'' 0 (subscribed (Some [9, 9])))
          = (if unlinkOk ?net then None
             else if Opened \<in> set [Opened, Data (Buffer [1, 2, 3]), Written 2]
               then Some (take k (bytesOf [Opened, Data (Buffer [1, 2, 3]), Written 2]))
             else destination (subscribed (Some [9, 9])))"
    by force
  from l obtain p where ps: "ps = [p]" by (cases ps) auto
  have 1: "destination (downloadFile ?net ''https://host/mcp-server-linux'' 0 (subscribed (Some [9, 9]))) = None"
    using d by (simp add: servingNetwork_def)
  have 2: "\<exists>e p. notifications (downloadFile ?net ''https://host/mcp-server-linux'' 0
      (subscribed (Some [9, 9]))) = [Next p, Error e]"
    using n ps by (simp add: subscribed_def)
  from stream_failure_cleans_up [OF _ g' _ cl' ct' b' good' bad' early' live [of None], of 0]
  obtain k' where
    "destination (downloadFile ?net' ''https://host/mcp-server-linux'' 0 (subscribed None))
          = (if unlinkOk ?net' then None
             else if Opened \<in> set [Data (Buffer [1, 2, 3])]
               then Some (take k' (bytesOf [Data (Buffer [1, 2, 3])]))
             else destination (subscribed None))"
    by force
  then have 3: "destination (downloadFile ?net' ''https://host/mcp-server-linux'' 0 (subscribed None)) = None"
    by (simp add: servingNetwork_def subscribed_def)
  show ?thesis using good bad 1 2 good' bad' 3 by blast
qed

text \<open>
  C1 as stated fails when \<open>unlink\<close> fails: the failure is caught and logged by
  \<open>cleanup\<close>, the error of the stream is surfaced, and the three bytes that were written
  to the file before the response error are still at the destination.
\<close>

theorem stream_failure_cleans_up_counterexample:
  "destination (downloadFile
       (servingNetwork False [Opened, Data (Buffer [1, 2, 3]), Written 3, ResponseError ''reset''])
       ''https://host/mcp-server-linux'' 0 (subscribed None)) = Some [1, 2, 3]
   \<and> notifications (downloadFile
       (servingNetwork False [Opened, Data (Buffer [1, 2, 3]), Written 3, ResponseError ''reset''])
       ''https://host/mcp-server-linux'' 0 (subscribed None))
     = [Next \<lparr> bytesReceived = 3, totalBytes = Finite 5 \<rparr>, Error (ResponseFailed ''reset'')]"
proof -
  have five: "parseInt10 ''5'' = Finite 5" by code_simp
  show ?thesis
    by (subst downloadFile.simps, subst downloadFile.simps)
       (simp add: servingNetwork_def subscribed_def truthy_def five Let_def runEvents_def
          handleEvent_def emit_def failWith_def cleanup_def writeOut_def)
qed

lemma getPlatform_detected:
  assumes "\<not> truthy (settingOf customPlatform plugin)"
  shows "getPlatform plugin os_platform \<in> set PLATFORM_TYPES"
    and "getPlatform plugin ''darwin'' = ''macos''"
    and "getPlatform plugin ''win32'' = ''windows''"
    and "os_platform \<noteq> ''darwin'' \<Longrightarrow> os_platform \<noteq> ''win32'' \<Longrightarrow>
         getPlatform plugin os_platform = ''linux''"
  using assms by (simp_all add: getPlatform_def PLATFORM_TYPES_def)

lemma overrides_returned:
  "truthy (settingOf customPlatform plugin) \<Longrightarrow>
     getPlatform plugin os_platform = the (settingOf customPlatform plugin)"
  "truthy (settingOf customArch plugin) \<Longrightarrow>
     getArch plugin os_arch = the (settingOf customArch plugin)"
  by (simp_all add: getPlatform_def getArch_def)

text \<open>
  C8 at the failing input. Without an override \<open>getArch\<close> returns what \<open>os.arch()\<close>
  gives, unmapped: on a 32-bit ARM or x86 machine that is \<open>arm\<close> or \<open>ia32\<close>, neither of
  which is a member of \<open>ARCH_TYPES\<close>, while \<open>getPlatform\<close> maps an unrecognised OS to
  \<open>linux\<close>.
\<close>

theorem getArch_returns_unmapped_cpu:
  "getArch None ''arm'' = ''arm'' \<and> ''arm'' \<notin> set ARCH_TYPES
   \<and> getArch (Some (examplePlugin ''0.2.27'')) ''ia32'' = ''ia32'' \<and> ''ia32'' \<notin> set ARCH_TYPES
   \<and> getPlatform None ''freebsd'' = ''linux'' \<and> ''linux'' \<in> set PLATFORM_TYPES"
  by (simp add: getArch_def getPlatform_def settingOf_def truthy_def examplePlugin_def
      ARCH_TYPES_def PLATFORM_TYPES_def)

end
